theory Spec2Isabelle
  imports Main "HOL-Library.Word" "HOL-Library.Signed_Division" "HOL-Library.Monad_Syntax"
    "HOL-Library.Sublist"
begin

unbundle bit_operations_syntax

section \<open>The PL/0C machine: instructions and activation frames\<close>

text \<open>
  \<^verbatim>\<open>pl0c::Integer\<close> is \<^verbatim>\<open>std::int32_t\<close>: a 32-bit word, read as two's complement by
  \<open>sint\<close>. Arithmetic wraps around.
\<close>

type_synonym Integer = "32 word"

text \<open>
  Activation frame layout (\<^verbatim>\<open>enum Frame\<close>). The interpreter names offset 1
  \<^verbatim>\<open>FrameOldBp\<close>; the headers at hand declare it as \<^verbatim>\<open>FrameOldFp = 1\<close>.
\<close>

definition FrameBase :: Integer where "FrameBase = 0"
definition FrameOldBp :: Integer where "FrameOldBp = 1"
definition FrameRetAddr :: Integer where "FrameRetAddr = 2"
definition FrameRetVal :: Integer where "FrameRetVal = 3"
definition FrameSize :: Integer where "FrameSize = 4"

text \<open>
  The operation codes the interpreter dispatches on (\<^verbatim>\<open>enum class OpCode\<close> of the machine
  definitions that go with \<^verbatim>\<open>pl0cinterp.cc\<close>). The constructors carry the prefix \<open>op_\<close>.
\<close>

datatype OpCode =
    op_Not | op_neg | op_comp
  | op_add | op_sub | op_mul | op_div | op_rem
  | op_bor | op_band | op_bxor
  | op_lshift | op_rshift
  | op_lt | op_lte | op_equ | op_gte | op_gt | op_neq
  | op_lor | op_land
  | op_pushConst | op_pushVar | op_eval | op_assign
  | op_call | op_enter | op_ret | op_reti | op_jump | op_jneq
  | op_halt

text \<open>
  \<^verbatim>\<open>struct Instr { Integer addr; OpCode op; int8_t level; }\<close>. The record is polymorphic in
  the operation code, since compiler and interpreter are built on two editions of the
  enumeration.
\<close>

record 'o Instr =
  addr :: Integer
  op :: 'o
  level :: "8 word"

section \<open>The interpreter (\<^verbatim>\<open>pl0cinterp.cc\<close>)\<close>

text \<open>
  How a cycle can end other than by producing the next machine state. Two outcomes are
  reported by the interpreter itself and abort the process: \<open>AssertFailed\<close> is a failed
  \<^verbatim>\<open>assert\<close>, \<open>UnknownOpCode\<close> the \<^verbatim>\<open>default\<close> branch of the dispatch (a message on
  standard error, then \<^verbatim>\<open>assert(false)\<close>). \<open>Undefined\<close> stands for behaviour the C++ source
  leaves undefined because it performs the operation without a test: \<open>OutOfRange\<close> is an
  index outside the stack vector, \<open>DivideByZero\<close> an integer division or remainder by zero,
  \<open>Overflow\<close> the division or remainder of the least integer by \<open>-1\<close>, whose quotient is
  not an \<^verbatim>\<open>Integer\<close>.
\<close>

datatype ub = OutOfRange | DivideByZero | Overflow

datatype error = AssertFailed | UnknownOpCode OpCode | Undefined ub

text \<open>
  Modelled from the spec: the class declaration of \<^verbatim>\<open>Interp\<close> (\<^verbatim>\<open>pl0cinterp.h\<close>) is missing;
  the registers \<open>pc\<close>, \<open>bp\<close> and \<open>sp\<close> are words, as are all addresses and stack cells.
  The fields \<^verbatim>\<open>lastWrite\<close> and \<^verbatim>\<open>verbose\<close> only feed the debugging dump and are left out.
\<close>

record machine =
  code :: "OpCode Instr list"
  stack :: "Integer list"
  pc :: Integer
  bp :: Integer
  sp :: Integer
  ir :: "OpCode Instr"

definition bnd :: "error + 'a \<Rightarrow> ('a \<Rightarrow> error + 'b) \<Rightarrow> error + 'b" where
  "bnd r f = (case r of Inl e \<Rightarrow> Inl e | Inr x \<Rightarrow> f x)"

text \<open>
  \<^verbatim>\<open>stack[i]\<close> with a signed index: the index is converted to the unsigned size type, so a
  negative one is out of range like one beyond the end.
\<close>

definition in_range :: "Integer list \<Rightarrow> Integer \<Rightarrow> bool" where
  "in_range s i \<longleftrightarrow> 0 \<le> sint i \<and> nat (sint i) < length s"

definition rd :: "Integer list \<Rightarrow> Integer \<Rightarrow> error + Integer" where
  "rd s i = (if in_range s i then Inr (s ! nat (sint i)) else Inl (Undefined OutOfRange))"

definition wr :: "Integer list \<Rightarrow> Integer \<Rightarrow> Integer \<Rightarrow> error + Integer list" where
  "wr s i v = (if in_range s i then Inr (s[nat (sint i) := v]) else Inl (Undefined OutOfRange))"

text \<open>
  \<^verbatim>\<open>uint16_t Interp::base(uint16_t lvl)\<close>: \<open>b\<close> starts as \<open>bp\<close> cut to 16 bits and follows
  the static link \<open>lvl\<close> times, each link cut to 16 bits.
\<close>

fun base_loop :: "nat \<Rightarrow> Integer list \<Rightarrow> 16 word \<Rightarrow> error + 16 word" where
  "base_loop 0 s b = Inr b"
| "base_loop (Suc n) s b =
     (if unat b < length s then base_loop n s (ucast (s ! unat b)) else Inl (Undefined OutOfRange))"

definition base :: "machine \<Rightarrow> 16 word \<Rightarrow> error + 16 word" where
  "base m lvl = base_loop (unat lvl) (stack m) (ucast (bp m))"

text \<open>
  \<^verbatim>\<open>void Interp::ret()\<close>: unlink the frame, then pop the parameters.
\<close>

definition ret :: "machine \<Rightarrow> error + machine" where
  "ret m =
     (let sp1 = bp m - 1 in
      bnd (rd (stack m) (bp m + FrameRetAddr)) (\<lambda>pc1.
      bnd (rd (stack m) (bp m + FrameOldBp)) (\<lambda>bp1.
      Inr (m\<lparr>sp := sp1 - addr (ir m), pc := pc1, bp := bp1\<rparr>))))"

text \<open>Unary operations write back in place; binary ones drop the top cell first.\<close>

definition unop :: "(Integer \<Rightarrow> Integer) \<Rightarrow> machine \<Rightarrow> error + machine" where
  "unop f m =
     bnd (rd (stack m) (sp m)) (\<lambda>a.
     bnd (wr (stack m) (sp m) (f a)) (\<lambda>s.
     Inr (m\<lparr>stack := s\<rparr>)))"

definition binop :: "(Integer \<Rightarrow> Integer \<Rightarrow> error + Integer) \<Rightarrow> machine \<Rightarrow> error + machine" where
  "binop f m =
     (let sp1 = sp m - 1 in
      bnd (rd (stack m) sp1) (\<lambda>a.
      bnd (rd (stack m) (sp1 + 1)) (\<lambda>b.
      bnd (f a b) (\<lambda>v.
      bnd (wr (stack m) sp1 v) (\<lambda>s.
      Inr (m\<lparr>sp := sp1, stack := s\<rparr>))))))"

definition truth :: "bool \<Rightarrow> error + Integer" where
  "truth b = Inr (if b then 1 else 0)"

text \<open>
  Division and remainder truncate towards zero. The source tests neither for a zero divisor
  nor for the one quotient that does not fit, the least integer by \<open>-1\<close>; C++ leaves both
  \<^verbatim>\<open>/\<close> and \<^verbatim>\<open>%\<close> undefined there, and the model marks them so.
\<close>

definition div_op :: "Integer \<Rightarrow> Integer \<Rightarrow> error + Integer" where
  "div_op a b =
     (if b = 0 then Inl (Undefined DivideByZero)
      else if sint a = - (2 ^ 31) \<and> sint b = - 1 then Inl (Undefined Overflow)
      else Inr (word_of_int (sint a sdiv sint b)))"

definition rem_op :: "Integer \<Rightarrow> Integer \<Rightarrow> error + Integer" where
  "rem_op a b =
     (if b = 0 then Inl (Undefined DivideByZero)
      else if sint a = - (2 ^ 31) \<and> sint b = - 1 then Inl (Undefined Overflow)
      else Inr (word_of_int (sint a smod sint b)))"

text \<open>
  The dispatch \<^verbatim>\<open>switch(ir.op)\<close> of \<^verbatim>\<open>Interp::run\<close>, on a machine whose \<open>ir\<close> holds the fetched
  instruction and whose \<open>pc\<close> is already incremented. Shift counts are taken modulo the
  word width. \<^verbatim>\<open>band\<close> is written with \<^verbatim>\<open>&&\<close> in the source.
\<close>

definition dispatch :: "machine \<Rightarrow> error + machine" where
  "dispatch m =
     (case op (ir m) of
        op_Not \<Rightarrow> unop (\<lambda>a. if a = 0 then 1 else 0) m
      | op_neg \<Rightarrow> unop (\<lambda>a. - a) m
      | op_comp \<Rightarrow> unop (\<lambda>a. NOT a) m
      | op_add \<Rightarrow> binop (\<lambda>a b. Inr (a + b)) m
      | op_sub \<Rightarrow> binop (\<lambda>a b. Inr (a - b)) m
      | op_mul \<Rightarrow> binop (\<lambda>a b. Inr (a * b)) m
      | op_div \<Rightarrow> binop div_op m
      | op_rem \<Rightarrow> binop rem_op m
      | op_bor \<Rightarrow> binop (\<lambda>a b. Inr (a OR b)) m
      | op_band \<Rightarrow> binop (\<lambda>a b. truth (a \<noteq> 0 \<and> b \<noteq> 0)) m
      | op_bxor \<Rightarrow> binop (\<lambda>a b. Inr (a XOR b)) m
      | op_lshift \<Rightarrow> binop (\<lambda>a b. Inr (push_bit (unat (b AND 31)) a)) m
      | op_rshift \<Rightarrow> binop (\<lambda>a b. Inr (signed_drop_bit (unat (b AND 31)) a)) m
      | op_equ \<Rightarrow> binop (\<lambda>a b. truth (a = b)) m
      | op_neq \<Rightarrow> binop (\<lambda>a b. truth (a \<noteq> b)) m
      | op_lt \<Rightarrow> binop (\<lambda>a b. truth (sint a < sint b)) m
      | op_gte \<Rightarrow> binop (\<lambda>a b. truth (sint a \<ge> sint b)) m
      | op_gt \<Rightarrow> binop (\<lambda>a b. truth (sint a > sint b)) m
      | op_lte \<Rightarrow> binop (\<lambda>a b. truth (sint a \<le> sint b)) m
      | op_lor \<Rightarrow> binop (\<lambda>a b. truth (a \<noteq> 0 \<or> b \<noteq> 0)) m
      | op_land \<Rightarrow> binop (\<lambda>a b. truth (a \<noteq> 0 \<and> b \<noteq> 0)) m
      | op_pushConst \<Rightarrow>
          bnd (wr (stack m) (sp m + 1) (addr (ir m))) (\<lambda>s.
          Inr (m\<lparr>sp := sp m + 1, stack := s\<rparr>))
      | op_pushVar \<Rightarrow>
          bnd (base m (scast (level (ir m)))) (\<lambda>b.
          bnd (wr (stack m) (sp m + 1) (ucast b + addr (ir m))) (\<lambda>s.
          Inr (m\<lparr>sp := sp m + 1, stack := s\<rparr>)))
      | op_eval \<Rightarrow>
          bnd (rd (stack m) (sp m)) (\<lambda>ea.
          bnd (rd (stack m) ea) (\<lambda>v.
          bnd (wr (stack m) (sp m) v) (\<lambda>s.
          Inr (m\<lparr>stack := s\<rparr>))))
      | op_assign \<Rightarrow>
          bnd (rd (stack m) (sp m)) (\<lambda>lastWrite.
          bnd (rd (stack m) (sp m - 1)) (\<lambda>v.
          bnd (wr (stack m) lastWrite v) (\<lambda>s.
          Inr (m\<lparr>sp := sp m - 2, stack := s\<rparr>))))
      | op_call \<Rightarrow>
          bnd (base m (scast (level (ir m)))) (\<lambda>b.
          bnd (wr (stack m) (sp m + 1 + FrameBase) (ucast b)) (\<lambda>s0.
          bnd (wr s0 (sp m + 1 + FrameOldBp) (bp m)) (\<lambda>s1.
          bnd (wr s1 (sp m + 1 + FrameRetAddr) (pc m)) (\<lambda>s2.
          bnd (wr s2 (sp m + 1 + FrameRetVal) 0) (\<lambda>s3.
          Inr (m\<lparr>stack := s3, bp := sp m + 1, sp := sp m + FrameSize, pc := addr (ir m)\<rparr>))))))
      | op_ret \<Rightarrow> ret m
      | op_reti \<Rightarrow>
          bnd (rd (stack m) (bp m + FrameRetVal)) (\<lambda>temp.
          bnd (ret m) (\<lambda>m1.
          bnd (wr (stack m1) (sp m1 + 1) temp) (\<lambda>s.
          Inr (m1\<lparr>sp := sp m1 + 1, stack := s\<rparr>))))
      | op_enter \<Rightarrow> Inr (m\<lparr>sp := sp m + addr (ir m)\<rparr>)
      | op_jump \<Rightarrow> Inr (m\<lparr>pc := addr (ir m)\<rparr>)
      | op_jneq \<Rightarrow>
          bnd (rd (stack m) (sp m)) (\<lambda>c.
          Inr (m\<lparr>sp := sp m - 1, pc := (if c = 0 then addr (ir m) else pc m)\<rparr>))
      | op_halt \<Rightarrow> Inl (UnknownOpCode op_halt))"

text \<open>
  One turn of the \<^verbatim>\<open>do ... while\<close> body: the two assertions, the fetch
  \<^verbatim>\<open>ir = code[pc++]\<close>, and the dispatch.
\<close>

definition fetch_ok :: "machine \<Rightarrow> bool" where
  "fetch_ok m \<longleftrightarrow>
     0 \<le> sint (pc m) \<and> nat (sint (pc m)) < length (code m) \<and>
     (sp m = - 1 \<or> sint (sp m) < int (length (stack m)))"

definition fetch :: "machine \<Rightarrow> machine" where
  "fetch m = m\<lparr>ir := code m ! nat (sint (pc m)), pc := pc m + 1\<rparr>"

definition step :: "machine \<Rightarrow> error + machine" where
  "step m = (if fetch_ok m then dispatch (fetch m) else Inl AssertFailed)"

text \<open>
  \<^verbatim>\<open>size_t Interp::run()\<close>: cycles are executed until one leaves \<open>pc = 0\<close>; the result is
  the final machine and the number of cycles. The loop need not end, so the model takes
  fuel: \<open>None\<close> means the fuel ran out before the loop ended.
\<close>

fun run :: "nat \<Rightarrow> machine \<Rightarrow> nat \<Rightarrow> (error + machine \<times> nat) option" where
  "run 0 m cycles = None"
| "run (Suc fuel) m cycles =
     (case step m of
        Inl e \<Rightarrow> Some (Inl e)
      | Inr m1 \<Rightarrow> if pc m1 \<noteq> 0 then run fuel m1 (cycles + 1) else Some (Inr (m1, cycles + 1)))"

text \<open>\<^verbatim>\<open>void Interp::reset()\<close>.\<close>

definition reset :: "machine \<Rightarrow> error + machine" where
  "reset m =
     bnd (wr (stack m) 3 0) (\<lambda>s3.
     bnd (wr s3 2 0) (\<lambda>s2.
     bnd (wr s2 1 0) (\<lambda>s1.
     bnd (wr s1 0 0) (\<lambda>s0.
     Inr (m\<lparr>pc := 0, stack := s0, bp := 0, sp := 3\<rparr>)))))"

text \<open>
  \<^verbatim>\<open>size_t Interp::operator()(const InstrVector& program, bool ver)\<close>: fill the stack with
  \<open>-1\<close>, load the program, reset, run.
\<close>

definition interp :: "nat \<Rightarrow> machine \<Rightarrow> OpCode Instr list \<Rightarrow> (error + machine \<times> nat) option" where
  "interp fuel m program =
     (case reset (m\<lparr>stack := replicate (length (stack m)) (- 1), code := program\<rparr>) of
        Inl e \<Rightarrow> Some (Inl e)
      | Inr m0 \<Rightarrow> run fuel m0 0)"

text \<open>
  The machine states \<^verbatim>\<open>run\<close> passes through: the same loop, collecting the state after each
  completed cycle.
\<close>

fun trace :: "nat \<Rightarrow> machine \<Rightarrow> machine list" where
  "trace 0 m = []"
| "trace (Suc fuel) m =
     (case step m of
        Inl e \<Rightarrow> []
      | Inr m1 \<Rightarrow> m1 # (if pc m1 \<noteq> 0 then trace fuel m1 else []))"

definition interp_trace :: "nat \<Rightarrow> machine \<Rightarrow> OpCode Instr list \<Rightarrow> machine list" where
  "interp_trace fuel m program =
     (case reset (m\<lparr>stack := replicate (length (stack m)) (- 1), code := program\<rparr>) of
        Inl e \<Rightarrow> []
      | Inr m0 \<Rightarrow> trace fuel m0)"

text \<open>
  The outcomes on which the interpreter itself writes a diagnostic and aborts: a failed
  assertion and the unknown operation code.
\<close>

definition reported :: "error \<Rightarrow> bool" where
  "reported e = (case e of AssertFailed \<Rightarrow> True | UnknownOpCode _ \<Rightarrow> True | Undefined _ \<Rightarrow> False)"

section \<open>The compiler (\<^verbatim>\<open>pl0ccomp.cc\<close>)\<close>

text \<open>
  The operation codes the compiler emits (\<^verbatim>\<open>enum class OpCode\<close> of \<^verbatim>\<open>pl0c/pl0c.h\<close>, which
  \<^verbatim>\<open>pl0ccomp.h\<close> includes). The constructors carry the prefix \<open>cop_\<close>.
\<close>

datatype COpCode =
    cop_odd | cop_neg
  | cop_add | cop_sub | cop_mul | cop_div
  | cop_equ | cop_neq | cop_lt | cop_lte | cop_gt | cop_gte
  | cop_pushConst | cop_pushVar | cop_pop
  | cop_call | cop_ret | cop_reti | cop_enter | cop_jump | cop_jneq

text \<open>\<^verbatim>\<open>Frame::rValue\<close> and \<^verbatim>\<open>Frame::size\<close> of \<^verbatim>\<open>pl0c/pl0c.h\<close>.\<close>

definition rValue :: Integer where "rValue = 3"
definition Frame_size :: Integer where "Frame_size = 4"

text \<open>
  Modelled from the spec: the scanner's header \<^verbatim>\<open>token.h\<close> of the compiler's edition is
  missing. The token kinds are the ones the compiler names, with the remaining operators and
  categories the specification lists; a token is a kind with a string and a number.
  The constructors carry the prefix \<open>T_\<close>.
\<close>

datatype Kind =
    T_unknown | T_badComment | T_eos
  | T_identifier | T_number
  | T_constDecl | T_varDecl | T_procDecl | T_funcDecl
  | T_begin | T_end | T_If | T_then | T_Else | T_While | T_Do | T_repeat | T_until | T_odd
  | T_equ | T_neq | T_lt | T_lte | T_gt | T_gte
  | T_lor | T_land | T_lshift | T_rshift | T_lnot | T_comp | T_bor | T_band | T_bxor
  | T_add | T_sub | T_mul | T_div | T_rem
  | T_lparen | T_rparen | T_comma | T_period | T_scomma | T_assign

record Token =
  kind :: Kind
  string_value :: string
  number_value :: Integer

text \<open>
  Modelled from the spec: \<^verbatim>\<open>symbol.h\<close> is missing. A symbol meaning is a record of kind,
  level and value; the table is a multimap from names to meanings, here the list of its
  entries in insertion order. The compiler keeps references to entries across insertions
  and removals, so every entry carries the identity of its node, a number drawn from the
  counter \<open>fresh\<close> when the entry is inserted.
\<close>

datatype SymKind = sym_constant | sym_identifier | sym_proc | sym_function

record SymValue =
  skind :: SymKind
  slevel :: int
  svalue :: Integer

type_synonym SymEntry = "nat \<times> string \<times> SymValue"
type_synonym SymbolTable = "SymEntry list"

text \<open>The diagnostics \<^verbatim>\<open>PL0CComp::error\<close> is called with.\<close>

datatype Diag =
    Expected Kind Kind
  | UndefinedIdentifier string
  | UnknownSymbol string
  | FactorSyntax Kind
  | AssignToConstant string
  | AssignToProcedure string
  | NotAProcedure string
  | UndefinedVariable string
  | NotVarOrProc string
  | PreviouslyDefined string

text \<open>
  The state of \<^verbatim>\<open>PL0CComp\<close>: the error count, the diagnostics written so far, the token
  stream (the current token first; an exhausted stream keeps yielding end-of-stream), the
  symbol table and the emitted code.
\<close>

record comp =
  nErrors :: nat
  diags :: "Diag list"
  ts :: "Token list"
  symtbl :: SymbolTable
  fresh :: nat
  emitted :: "COpCode Instr list"

definition error :: "Diag \<Rightarrow> comp \<Rightarrow> comp" where
  "error d st = st\<lparr>diags := diags st @ [d], nErrors := nErrors st + 1\<rparr>"

definition current :: "comp \<Rightarrow> Token" where
  "current st = (case ts st of [] \<Rightarrow> \<lparr>kind = T_eos, string_value = [], number_value = 0\<rparr> | t # _ \<Rightarrow> t)"

definition next_token :: "comp \<Rightarrow> comp" where
  "next_token st = st\<lparr>ts := tl (ts st)\<rparr>"

definition accept :: "Kind \<Rightarrow> bool \<Rightarrow> comp \<Rightarrow> bool \<times> comp" where
  "accept k get st =
     (if kind (current st) = k then (True, if get then next_token st else st) else (False, st))"

definition expect :: "Kind \<Rightarrow> bool \<Rightarrow> comp \<Rightarrow> bool \<times> comp" where
  "expect k get st =
     (case accept k get st of
        (True, st1) \<Rightarrow> (True, st1)
      | (False, st1) \<Rightarrow> (False, error (Expected k (kind (current st1))) st1))"

text \<open>\<^verbatim>\<open>emit\<close> appends an instruction and returns its address.\<close>

definition emit :: "COpCode \<Rightarrow> 8 word \<Rightarrow> Integer \<Rightarrow> comp \<Rightarrow> nat \<times> comp" where
  "emit opc l a st =
     (length (emitted st), st\<lparr>emitted := emitted st @ [\<lparr>addr = a, op = opc, level = l\<rparr>]\<rparr>)"

text \<open>\<^verbatim>\<open>(*code)[pc].addr = a\<close>.\<close>

definition patch :: "nat \<Rightarrow> Integer \<Rightarrow> comp \<Rightarrow> comp" where
  "patch loc a st = st\<lparr>emitted := (emitted st)[loc := (emitted st ! loc)\<lparr>addr := a\<rparr>]\<rparr>"

text \<open>
  \<^verbatim>\<open>symtbl.equal_range(name)\<close>, and the search for the closest entry: the first one whose
  level no later entry of the range exceeds.
\<close>

definition equal_range :: "string \<Rightarrow> SymbolTable \<Rightarrow> SymEntry list" where
  "equal_range name tbl = filter (\<lambda>e. fst (snd e) = name) tbl"

fun closest_loop :: "SymEntry \<Rightarrow> SymEntry list \<Rightarrow> SymEntry" where
  "closest_loop closest [] = closest"
| "closest_loop closest (it # rng) =
     closest_loop (if slevel (snd (snd it)) > slevel (snd (snd closest)) then it else closest) rng"

definition lookup :: "string \<Rightarrow> SymbolTable \<Rightarrow> SymEntry option" where
  "lookup name tbl =
     (case equal_range name tbl of [] \<Rightarrow> None | first # rng \<Rightarrow> Some (closest_loop first (first # rng)))"

definition insert_sym :: "string \<Rightarrow> SymValue \<Rightarrow> comp \<Rightarrow> nat \<times> comp" where
  "insert_sym name v st =
     (fresh st, st\<lparr>symtbl := symtbl st @ [(fresh st, name, v)], fresh := fresh st + 1\<rparr>)"

text \<open>\<^verbatim>\<open>val.value = a\<close> through the reference \<open>r\<close> to an entry.\<close>

definition set_value :: "nat \<Rightarrow> Integer \<Rightarrow> comp \<Rightarrow> comp" where
  "set_value r a st =
     st\<lparr>symtbl := map (\<lambda>(i, n, v). if i = r then (i, n, v\<lparr>svalue := a\<rparr>) else (i, n, v)) (symtbl st)\<rparr>"

definition purge :: "int \<Rightarrow> comp \<Rightarrow> comp" where
  "purge lev st = st\<lparr>symtbl := filter (\<lambda>e. slevel (snd (snd e)) \<noteq> lev) (symtbl st)\<rparr>"

text \<open>
  The recursive-descent procedures. Their recursion follows the input, so the model takes
  fuel: every procedure passes one unit less to the procedures it calls, and \<open>None\<close> means
  that the fuel ran out. The loops of the source are the functions named \<open>_loop\<close>.
  Expressions never touch the symbol table, so an entry looked up before an expression is
  compiled is used by value after it.
\<close>

function (sequential) identifier_factor :: "nat \<Rightarrow> int \<Rightarrow> comp \<Rightarrow> comp option"
  and args_loop :: "nat \<Rightarrow> int \<Rightarrow> comp \<Rightarrow> comp option"
  and factor :: "nat \<Rightarrow> int \<Rightarrow> comp \<Rightarrow> comp option"
  and terminal :: "nat \<Rightarrow> int \<Rightarrow> comp \<Rightarrow> comp option"
  and terminal_loop :: "nat \<Rightarrow> int \<Rightarrow> comp \<Rightarrow> comp option"
  and expression :: "nat \<Rightarrow> int \<Rightarrow> comp \<Rightarrow> comp option"
  and expression_loop :: "nat \<Rightarrow> int \<Rightarrow> comp \<Rightarrow> comp option"
where
  "identifier_factor 0 lev st = None"
| "identifier_factor (Suc n) lev st =
     (let name = string_value (current st); st1 = next_token st in
      case lookup name (symtbl st1) of
        None \<Rightarrow> Some (error (UndefinedIdentifier name) st1)
      | Some (r, nm, closest) \<Rightarrow>
          (case skind closest of
             sym_constant \<Rightarrow> Some (snd (emit cop_pushConst 0 (svalue closest) st1))
           | sym_identifier \<Rightarrow>
               Some (snd (emit cop_pushVar (word_of_int (lev - slevel closest)) (svalue closest) st1))
           | sym_function \<Rightarrow> do {
               let st2 = snd (expect T_lparen True st1);
               st3 \<leftarrow> (if fst (accept T_rparen False st2) then Some st2 else args_loop n lev st2);
               let st4 = snd (expect T_rparen True st3);
               Some (snd (emit cop_call (word_of_int (lev - slevel closest)) (svalue closest) st4))
             }
           | sym_proc \<Rightarrow> Some (error (UnknownSymbol name) st1)))"
| "args_loop 0 lev st = None"
| "args_loop (Suc n) lev st = do {
     st1 \<leftarrow> expression n lev st;
     case accept T_comma True st1 of
       (True, st2) \<Rightarrow> args_loop n lev st2
     | (False, st2) \<Rightarrow> Some st2
   }"
| "factor 0 lev st = None"
| "factor (Suc n) lev st =
     (if fst (accept T_identifier False st) then identifier_factor n lev st
      else if fst (accept T_number False st) then
        Some (snd (expect T_number True (snd (emit cop_pushConst 0 (number_value (current st)) st))))
      else case accept T_lparen True st of
        (True, st1) \<Rightarrow> do {
          st2 \<leftarrow> expression n lev st1;
          Some (snd (expect T_rparen True st2))
        }
      | (False, st1) \<Rightarrow> Some (next_token (error (FactorSyntax (kind (current st1))) st1)))"
| "terminal 0 lev st = None"
| "terminal (Suc n) lev st = do {
     st1 \<leftarrow> factor n lev st;
     terminal_loop n lev st1
   }"
| "terminal_loop 0 lev st = None"
| "terminal_loop (Suc n) lev st =
     (let k = kind (current st) in
      if k = T_mul \<or> k = T_div then do {
        st1 \<leftarrow> factor n lev (next_token st);
        terminal_loop n lev (snd (emit (if T_mul = k then cop_mul else cop_div) 0 0 st1))
      }
      else Some st)"
| "expression 0 lev st = None"
| "expression (Suc n) lev st =
     (let unary = kind (current st);
          st1 = (if unary = T_add \<or> unary = T_sub then next_token st else st)
      in do {
        st2 \<leftarrow> terminal n lev st1;
        expression_loop n lev (if T_sub = unary then snd (emit cop_neg 0 0 st2) else st2)
      })"
| "expression_loop 0 lev st = None"
| "expression_loop (Suc n) lev st =
     (let k = kind (current st) in
      if k = T_add \<or> k = T_sub then do {
        st1 \<leftarrow> terminal n lev (next_token st);
        expression_loop n lev (snd (emit (if T_add = k then cop_add else cop_sub) 0 0 st1))
      }
      else Some st)"
  by pat_completeness auto

termination
  by (relation "measure (\<lambda>x. case x of
        Inl (Inl p) \<Rightarrow> fst p | Inl (Inr (Inl p)) \<Rightarrow> fst p | Inl (Inr (Inr p)) \<Rightarrow> fst p
      | Inr (Inl (Inl p)) \<Rightarrow> fst p | Inr (Inl (Inr p)) \<Rightarrow> fst p
      | Inr (Inr (Inl p)) \<Rightarrow> fst p | Inr (Inr (Inr p)) \<Rightarrow> fst p)") auto

definition condition :: "nat \<Rightarrow> int \<Rightarrow> comp \<Rightarrow> comp option" where
  "condition n lev st =
     (case accept T_odd True st of
        (True, st1) \<Rightarrow> do {
          st2 \<leftarrow> expression n lev st1;
          Some (snd (emit cop_odd 0 0 st2))
        }
      | (False, st1) \<Rightarrow> do {
          st2 \<leftarrow> expression n lev st1;
          let opr = kind (current st2);
          if opr = T_lte \<or> opr = T_lt \<or> opr = T_equ \<or> opr = T_gt \<or> opr = T_gte \<or> opr = T_neq
          then do {
            st3 \<leftarrow> expression n lev (next_token st2);
            Some (snd (emit
              (if opr = T_lte then cop_lte else if opr = T_lt then cop_lt
               else if opr = T_equ then cop_equ else if opr = T_gt then cop_gt
               else if opr = T_gte then cop_gte else cop_neq) 0 0 st3))
          }
          else Some st2
        })"

definition assignStmt :: "nat \<Rightarrow> string \<Rightarrow> SymValue \<Rightarrow> int \<Rightarrow> comp \<Rightarrow> comp option" where
  "assignStmt n name val lev st = do {
     st1 \<leftarrow> expression n lev st;
     Some (case skind val of
        sym_identifier \<Rightarrow> snd (emit cop_pop (word_of_int (lev - slevel val)) (svalue val) st1)
      | sym_function \<Rightarrow> snd (emit cop_pop 0 rValue st1)
      | sym_constant \<Rightarrow> error (AssignToConstant name) st1
      | sym_proc \<Rightarrow> error (AssignToProcedure name) st1)
   }"

definition callStmt :: "nat \<Rightarrow> string \<Rightarrow> SymValue \<Rightarrow> int \<Rightarrow> comp \<Rightarrow> comp option" where
  "callStmt n name val lev st = do {
     st1 \<leftarrow> (if fst (accept T_rparen False st) then Some st else args_loop n lev st);
     let st2 = snd (expect T_rparen True st1);
     Some (if sym_proc \<noteq> skind val then error (NotAProcedure name) st2
           else snd (emit cop_call (word_of_int (lev - slevel val)) (svalue val) st2))
   }"

definition identStmt :: "nat \<Rightarrow> int \<Rightarrow> comp \<Rightarrow> comp option" where
  "identStmt n lev st =
     (let name = string_value (current st); st1 = next_token st in
      case lookup name (symtbl st1) of
        None \<Rightarrow> Some (error (UndefinedVariable name) st1)
      | Some (r, nm, closest) \<Rightarrow>
          (case accept T_assign True st1 of
             (True, st2) \<Rightarrow> assignStmt n nm closest lev st2
           | (False, st2) \<Rightarrow>
               (case accept T_lparen True st2 of
                  (True, st3) \<Rightarrow> callStmt n nm closest lev st3
                | (False, st3) \<Rightarrow> Some (error (NotVarOrProc name) st3))))"

function (sequential) whileStmt :: "nat \<Rightarrow> int \<Rightarrow> comp \<Rightarrow> comp option"
  and ifStmt :: "nat \<Rightarrow> int \<Rightarrow> comp \<Rightarrow> comp option"
  and repeatStmt :: "nat \<Rightarrow> int \<Rightarrow> comp \<Rightarrow> comp option"
  and statement :: "nat \<Rightarrow> int \<Rightarrow> comp \<Rightarrow> comp option"
  and statement_loop :: "nat \<Rightarrow> int \<Rightarrow> comp \<Rightarrow> comp option"
where
  "whileStmt 0 lev st = None"
| "whileStmt (Suc n) lev st =
     (let cond_pc = length (emitted st) in do {
        st1 \<leftarrow> condition n lev st;
        let (jmp_pc, st2) = emit cop_jneq 0 0 st1;
        let st3 = snd (expect T_Do True st2);
        st4 \<leftarrow> statement n lev st3;
        let st5 = snd (emit cop_jump 0 (of_nat cond_pc) st4);
        Some (patch jmp_pc (of_nat (length (emitted st5))) st5)
      })"
| "ifStmt 0 lev st = None"
| "ifStmt (Suc n) lev st = do {
     st1 \<leftarrow> condition n lev st;
     let (jmp_pc, st2) = emit cop_jneq 0 0 st1;
     let st3 = snd (expect T_then True st2);
     st4 \<leftarrow> statement n lev st3;
     case accept T_Else True st4 of
       (True, st5) \<Rightarrow> do {
         let (else_pc, st6) = emit cop_jump 0 0 st5;
         let st7 = patch jmp_pc (of_nat (length (emitted st6))) st6;
         st8 \<leftarrow> statement n lev st7;
         Some (patch else_pc (of_nat (length (emitted st8))) st8)
       }
     | (False, st5) \<Rightarrow> Some (patch jmp_pc (of_nat (length (emitted st5))) st5)
   }"
| "repeatStmt 0 lev st = None"
| "repeatStmt (Suc n) lev st =
     (let loop_pc = length (emitted st) in do {
        st1 \<leftarrow> statement n lev st;
        let st2 = snd (expect T_until True st1);
        st3 \<leftarrow> condition n lev st2;
        Some (snd (emit cop_jneq 0 (of_nat loop_pc) st3))
      })"
| "statement 0 lev st = None"
| "statement (Suc n) lev st =
     (if fst (accept T_identifier False st) then identStmt n lev st
      else case accept T_begin True st of
        (True, st1) \<Rightarrow> do {
          st2 \<leftarrow> statement_loop n lev st1;
          Some (snd (expect T_end True st2))
        }
      | (False, st1) \<Rightarrow>
          (case accept T_If True st1 of
             (True, st2) \<Rightarrow> ifStmt n lev st2
           | (False, st2) \<Rightarrow>
               (case accept T_While True st2 of
                  (True, st3) \<Rightarrow> whileStmt n lev st3
                | (False, st3) \<Rightarrow>
                    (case accept T_repeat True st3 of
                       (True, st4) \<Rightarrow> repeatStmt n lev st4
                     | (False, st4) \<Rightarrow> Some st4))))"
| "statement_loop 0 lev st = None"
| "statement_loop (Suc n) lev st = do {
     st1 \<leftarrow> statement n lev st;
     case accept T_scomma True st1 of
       (True, st2) \<Rightarrow> statement_loop n lev st2
     | (False, st2) \<Rightarrow> Some st2
   }"
  by pat_completeness auto

termination
  by (relation "measure (\<lambda>x. case x of
        Inl (Inl p) \<Rightarrow> fst p | Inl (Inr p) \<Rightarrow> fst p
      | Inr (Inl p) \<Rightarrow> fst p | Inr (Inr (Inl p)) \<Rightarrow> fst p | Inr (Inr (Inr p)) \<Rightarrow> fst p)") auto

text \<open>Does the range hold an entry of this level?\<close>

definition defined_at :: "string \<Rightarrow> int \<Rightarrow> SymbolTable \<Rightarrow> bool" where
  "defined_at name lev tbl = list_ex (\<lambda>e. slevel (snd (snd e)) = lev) (equal_range name tbl)"

definition constDecl :: "int \<Rightarrow> comp \<Rightarrow> comp" where
  "constDecl lev st =
     (let name = string_value (current st);
          st1 = snd (expect T_identifier True st);
          st2 = snd (expect T_assign True st1)
      in case expect T_number False st2 of
        (True, st3) \<Rightarrow>
          (let number = number_value (current st3); st4 = next_token st3 in
           if defined_at name lev (symtbl st4) then error (PreviouslyDefined name) st4
           else snd (insert_sym name \<lparr>skind = sym_constant, slevel = lev, svalue = number\<rparr> st4))
      | (False, st3) \<Rightarrow> st3)"

definition varDecl :: "Integer \<Rightarrow> int \<Rightarrow> comp \<Rightarrow> Integer \<times> comp" where
  "varDecl offset lev st =
     (let name = string_value (current st) in
      case expect T_identifier True st of
        (True, st1) \<Rightarrow>
          if defined_at name lev (symtbl st1) then (offset, error (PreviouslyDefined name) st1)
          else (offset + 1,
                snd (insert_sym name \<lparr>skind = sym_identifier, slevel = lev, svalue = offset\<rparr> st1))
      | (False, st1) \<Rightarrow> (offset, st1))"

fun constDecl_loop :: "nat \<Rightarrow> int \<Rightarrow> comp \<Rightarrow> comp option" where
  "constDecl_loop 0 lev st = None"
| "constDecl_loop (Suc n) lev st =
     (case accept T_comma True (constDecl lev st) of
        (True, st1) \<Rightarrow> constDecl_loop n lev st1
      | (False, st1) \<Rightarrow> Some st1)"

fun varDecl_loop :: "nat \<Rightarrow> Integer \<Rightarrow> int \<Rightarrow> comp \<Rightarrow> (Integer \<times> comp) option" where
  "varDecl_loop 0 dx lev st = None"
| "varDecl_loop (Suc n) dx lev st =
     (case varDecl dx lev st of (dx1, st1) \<Rightarrow>
        (case accept T_comma True st1 of
           (True, st2) \<Rightarrow> varDecl_loop n dx1 lev st2
         | (False, st2) \<Rightarrow> Some (dx1, st2)))"

text \<open>
  The formal arguments of a subroutine header: the loop that records them, and the loop
  that enters them into the symbol table with the offsets \<open>-n, ..., -1\<close>.
\<close>

fun formals_loop :: "nat \<Rightarrow> string list \<Rightarrow> comp \<Rightarrow> (string list \<times> comp) option" where
  "formals_loop 0 args st = None"
| "formals_loop (Suc n) args st =
     (let args1 = args @ [string_value (current st)];
          st1 = snd (accept T_identifier True st)
      in case accept T_comma True st1 of
        (True, st2) \<Rightarrow> formals_loop n args1 st2
      | (False, st2) \<Rightarrow> Some (args1, st2))"

fun insert_formals :: "string list \<Rightarrow> Integer \<Rightarrow> int \<Rightarrow> comp \<Rightarrow> comp" where
  "insert_formals [] offset lev st = st"
| "insert_formals (x # xs) offset lev st =
     insert_formals xs (offset + 1) lev
       (snd (insert_sym x \<lparr>skind = sym_identifier, slevel = lev, svalue = offset\<rparr> st))"

text \<open>One diagnostic for every entry of the name at this level.\<close>

fun redefinitions :: "string \<Rightarrow> int \<Rightarrow> SymEntry list \<Rightarrow> comp \<Rightarrow> comp" where
  "redefinitions name lev [] st = st"
| "redefinitions name lev (it # rng) st =
     redefinitions name lev rng
       (if slevel (snd (snd it)) = lev then error (PreviouslyDefined name) st else st)"

text \<open>
  The parts of \<^verbatim>\<open>subDecl\<close> and \<^verbatim>\<open>block\<close> that do not recur: entering the new subroutine
  into the table after the check for an earlier definition, the formal arguments, and the
  constant and variable sections of a block.
\<close>

definition declare_sub :: "Kind \<Rightarrow> string \<Rightarrow> int \<Rightarrow> comp \<Rightarrow> (nat \<times> SymKind) \<times> comp" where
  "declare_sub knd name lev st =
     (let st1 = redefinitions name lev (equal_range name (symtbl st)) st;
          sk = (if T_procDecl = knd then sym_proc else sym_function);
          (it, st2) = insert_sym name \<lparr>skind = sk, slevel = lev, svalue = 0\<rparr> st1
      in ((it, sk), st2))"

definition formals :: "nat \<Rightarrow> int \<Rightarrow> comp \<Rightarrow> (string list \<times> comp) option" where
  "formals n lev st =
     (if fst (accept T_identifier False st) then do {
        (args, st1) \<leftarrow> formals_loop n [] st;
        Some (args, insert_formals args (- of_nat (length args)) (lev + 1) st1)
      }
      else Some ([], st))"

definition constSection :: "nat \<Rightarrow> int \<Rightarrow> comp \<Rightarrow> comp option" where
  "constSection n lev st =
     (case accept T_constDecl True st of
        (True, st1) \<Rightarrow> do {
          st2 \<leftarrow> constDecl_loop n lev st1;
          Some (snd (expect T_scomma True st2))
        }
      | (False, st1) \<Rightarrow> Some st1)"

definition varSection :: "nat \<Rightarrow> Integer \<Rightarrow> int \<Rightarrow> comp \<Rightarrow> (Integer \<times> comp) option" where
  "varSection n dx lev st =
     (case accept T_varDecl True st of
        (True, st1) \<Rightarrow> do {
          (dx1, st2) \<leftarrow> varDecl_loop n dx lev st1;
          Some (dx1, snd (expect T_scomma True st2))
        }
      | (False, st1) \<Rightarrow> Some (dx, st1))"

text \<open>
  \<^verbatim>\<open>subDecl\<close> and \<^verbatim>\<open>block\<close>. The block's own entry \<^verbatim>\<open>SymValue& val\<close> is passed as the
  identity of the entry, through which the entry address is written, together with its
  kind, which nothing changes after the insertion.
\<close>

function (sequential) subDecl :: "nat \<Rightarrow> int \<Rightarrow> comp \<Rightarrow> comp option"
  and subDecl_loop :: "nat \<Rightarrow> int \<Rightarrow> comp \<Rightarrow> comp option"
  and block :: "nat \<Rightarrow> nat \<times> SymKind \<Rightarrow> int \<Rightarrow> nat \<Rightarrow> comp \<Rightarrow> comp option"
where
  "subDecl 0 lev st = None"
| "subDecl (Suc n) lev st =
     (let knd = kind (current st);
          st1 = next_token st;
          name = string_value (current st1)
      in case expect T_identifier True st1 of
        (True, st2) \<Rightarrow> do {
          let (it, st3) = declare_sub knd name lev st2;
          let st4 = snd (expect T_lparen True st3);
          (args, st5) \<leftarrow> formals n lev st4;
          let st6 = snd (expect T_rparen True st5);
          st7 \<leftarrow> block n it (lev + 1) (length args) st6;
          Some (snd (expect T_scomma True st7))
        }
      | (False, st2) \<Rightarrow> Some st2)"
| "subDecl_loop 0 lev st = None"
| "subDecl_loop (Suc n) lev st =
     (if fst (accept T_procDecl False st) \<or> fst (accept T_funcDecl False st) then do {
        st1 \<leftarrow> subDecl n lev st;
        subDecl_loop n lev st1
      }
      else Some st)"
| "block 0 val lev nargs st = None"
| "block (Suc n) val lev nargs st = do {
     let (jmp_pc, st1) = emit cop_jump 0 0 st;
     st2 \<leftarrow> constSection n lev st1;
     (dx, st3) \<leftarrow> varSection n Frame_size lev st2;
     st4 \<leftarrow> subDecl_loop n lev st3;
     let (addr, st5) = emit cop_enter 0 dx st4;
     let st6 = set_value (fst val) (of_nat addr) (patch jmp_pc (of_nat addr) st5);
     st7 \<leftarrow> statement n lev st6;
     let st8 = (if sym_function = snd val then snd (emit cop_reti 0 (of_nat nargs) st7)
                else snd (emit cop_ret 0 (of_nat nargs) st7));
     Some (purge lev st8)
   }"
  by pat_completeness auto

termination
  by (relation "measure (\<lambda>x. case x of
        Inl p \<Rightarrow> fst p | Inr (Inl p) \<Rightarrow> fst p | Inr (Inr p) \<Rightarrow> fst p)") auto

text \<open>
  The constructor installs the declaration of \<^verbatim>\<open>main\<close>; \<^verbatim>\<open>run\<close> reads the first token,
  compiles the outermost block as the body of \<^verbatim>\<open>main\<close> and expects the final period.
\<close>

definition PL0CComp :: comp where
  "PL0CComp = \<lparr>nErrors = 0, diags = [], ts = [],
     symtbl = [(0, ''main'', \<lparr>skind = sym_proc, slevel = 0, svalue = 0\<rparr>)], fresh = 1,
     emitted = []\<rparr>"

definition run_comp :: "nat \<Rightarrow> comp \<Rightarrow> comp option" where
  "run_comp n st =
     (let st1 = next_token st in
      case equal_range ''main'' (symtbl st1) of
        [] \<Rightarrow> None
      | first # rng \<Rightarrow> do {
          st2 \<leftarrow> block n (fst first, skind (snd (snd first))) 0 0 st1;
          Some (snd (expect T_period True st2))
        })"

definition set_input :: "Token list \<Rightarrow> comp \<Rightarrow> comp" where
  "set_input input st = st\<lparr>ts := current st # input\<rparr>"

definition compile :: "nat \<Rightarrow> Token list \<Rightarrow> comp option" where
  "compile n input = run_comp n (set_input input PL0CComp)"

section \<open>Notions used in the properties\<close>

text \<open>
  How a later compiler state relates to an earlier one: \<open>extends\<close> says that the code and
  the diagnostics have only grown at the end, that the error count grew by the number of new
  diagnostics, and that the remaining input is a suffix of the earlier one; \<open>keeps\<close> says
  moreover that the symbol table is the same. \<open>scoped L\<close> says that no entry of the symbol
  table has a level above \<open>L\<close>. \<open>pres\<close> and \<open>den\<close> package these for the inductions over
  the fuel, \<open>fits r n\<close> says that \<open>n\<close> units of fuel are enough for a procedure of rank
  \<open>r\<close> on the remaining input. \<open>same_level\<close> is the list of the entries of a name at a level,
  and \<open>consecutive dx lev\<close> describes the meanings of variables of level \<open>lev\<close> with the
  offsets \<open>dx, dx + 1, ...\<close>.
\<close>

definition extends :: "comp \<Rightarrow> comp \<Rightarrow> bool" where
  "extends s s' \<longleftrightarrow>
     prefix (emitted s) (emitted s') \<and> prefix (diags s) (diags s') \<and>
     nErrors s' = nErrors s + (length (diags s') - length (diags s)) \<and>
     suffix (ts s') (ts s) \<and> fresh s \<le> fresh s'"

definition keeps :: "comp \<Rightarrow> comp \<Rightarrow> bool" where
  "keeps s s' \<longleftrightarrow> extends s s' \<and> symtbl s' = symtbl s \<and> fresh s' = fresh s"

definition pres :: "(comp \<Rightarrow> comp \<Rightarrow> bool) \<Rightarrow> (int \<Rightarrow> comp \<Rightarrow> comp option) \<Rightarrow> bool" where
  "pres R f \<longleftrightarrow> (\<forall>s lev st st'. R s st \<longrightarrow> f lev st = Some st' \<longrightarrow> R s st')"

definition scoped :: "int \<Rightarrow> comp \<Rightarrow> bool" where
  "scoped L st \<longleftrightarrow> (\<forall>e \<in> set (symtbl st). slevel (snd (snd e)) \<le> L)"

definition den :: "bool \<Rightarrow> int \<Rightarrow> comp \<Rightarrow> comp \<Rightarrow> bool" where
  "den b L s st \<longleftrightarrow> extends s st \<and> (b \<longrightarrow> scoped L st)"

definition len :: "comp \<Rightarrow> nat" where
  "len st = length (ts st)"

definition fits :: "nat \<Rightarrow> nat \<Rightarrow> comp \<Rightarrow> bool" where
  "fits r n st \<longleftrightarrow> 8 * len st + r \<le> n"

definition same_level :: "string \<Rightarrow> int \<Rightarrow> SymbolTable \<Rightarrow> SymEntry list" where
  "same_level name lev tbl = filter (\<lambda>e. slevel (snd (snd e)) = lev) (equal_range name tbl)"

fun consecutive :: "Integer \<Rightarrow> int \<Rightarrow> SymValue list \<Rightarrow> bool" where
  "consecutive dx lev [] \<longleftrightarrow> True"
| "consecutive dx lev (v # vs) \<longleftrightarrow>
     v = \<lparr>skind = sym_identifier, slevel = lev, svalue = dx\<rparr> \<and> consecutive (dx + 1) lev vs"

section \<open>Example machines\<close>

text \<open>\<^verbatim>\<open>Instr()\<close>, the default instruction.\<close>

definition Instr0 :: "OpCode Instr" where
  "Instr0 = \<lparr>addr = 0, op = op_pushConst, level = 0\<rparr>"

text \<open>
  A three-instruction program: call the subroutine at 2, which returns at once popping one
  argument; the instruction at 1 jumps to 0 and so ends the run. \<open>call_m0\<close> is the machine
  as \<^verbatim>\<open>operator()\<close> starts it on a stack of ten cells, \<open>call_m1\<close> and \<open>call_m2\<close> are the
  machines after the first and the second cycle.
\<close>

definition call_prog :: "OpCode Instr list" where
  "call_prog =
     [\<lparr>addr = 2, op = op_call, level = 0\<rparr>,
      \<lparr>addr = 0, op = op_jump, level = 0\<rparr>,
      \<lparr>addr = 1, op = op_ret, level = 0\<rparr>]"

definition call_m0 :: machine where
  "call_m0 = \<lparr>code = call_prog, stack = [0, 0, 0, 0, - 1, - 1, - 1, - 1, - 1, - 1],
     pc = 0, bp = 0, sp = 3, ir = Instr0\<rparr>"

definition call_m1 :: machine where
  "call_m1 = \<lparr>code = call_prog, stack = [0, 0, 0, 0, 0, 0, 1, 0, - 1, - 1],
     pc = 2, bp = 4, sp = 7, ir = \<lparr>addr = 2, op = op_call, level = 0\<rparr>\<rparr>"

definition call_m2 :: machine where
  "call_m2 = \<lparr>code = call_prog, stack = [0, 0, 0, 0, 0, 0, 1, 0, - 1, - 1],
     pc = 1, bp = 0, sp = 2, ir = \<lparr>addr = 1, op = op_ret, level = 0\<rparr>\<rparr>"

text \<open>A block prologue \<^verbatim>\<open>enter 6\<close> (two locals), and a division of 1 by 0.\<close>

definition enter_prog :: "OpCode Instr list" where
  "enter_prog =
     [\<lparr>addr = 1, op = op_jump, level = 0\<rparr>,
      \<lparr>addr = 6, op = op_enter, level = 0\<rparr>,
      \<lparr>addr = 0, op = op_ret, level = 0\<rparr>]"

definition enter_m1 :: machine where
  "enter_m1 = \<lparr>code = enter_prog, stack = [0, 0, 0, 0, - 1, - 1, - 1, - 1, - 1, - 1],
     pc = 1, bp = 0, sp = 3, ir = \<lparr>addr = 1, op = op_jump, level = 0\<rparr>\<rparr>"

definition enter_m2 :: machine where
  "enter_m2 = \<lparr>code = enter_prog, stack = [0, 0, 0, 0, - 1, - 1, - 1, - 1, - 1, - 1],
     pc = 2, bp = 0, sp = 9, ir = \<lparr>addr = 6, op = op_enter, level = 0\<rparr>\<rparr>"

definition div_prog :: "OpCode Instr list" where
  "div_prog =
     [\<lparr>addr = 1, op = op_pushConst, level = 0\<rparr>,
      \<lparr>addr = 0, op = op_pushConst, level = 0\<rparr>,
      \<lparr>addr = 0, op = op_div, level = 0\<rparr>,
      \<lparr>addr = 0, op = op_ret, level = 0\<rparr>]"

definition div_m2 :: machine where
  "div_m2 = \<lparr>code = div_prog, stack = [0, 0, 0, 0, 1, 0, - 1, - 1, - 1, - 1],
     pc = 2, bp = 0, sp = 5, ir = \<lparr>addr = 0, op = op_pushConst, level = 0\<rparr>\<rparr>"

section \<open>Example programs for the compiler\<close>

text \<open>
  Token lists as the scanner delivers them, and \<open>body_state\<close>, the compiler in the body of
  a main block that declares the variable \<open>x\<close>, with the given input left.
\<close>

definition tok :: "Kind \<Rightarrow> Token" where
  "tok k = \<lparr>kind = k, string_value = [], number_value = 0\<rparr>"

definition ident :: "string \<Rightarrow> Token" where
  "ident s = \<lparr>kind = T_identifier, string_value = s, number_value = 0\<rparr>"

definition num :: "Integer \<Rightarrow> Token" where
  "num v = \<lparr>kind = T_number, string_value = [], number_value = v\<rparr>"

definition src_assign :: "Token list" where
  "src_assign = [tok T_varDecl, ident ''x'', tok T_scomma,
                 ident ''x'', tok T_assign, ident ''x'', tok T_period]"

definition src_odd :: "Token list" where
  "src_odd = [tok T_If, tok T_odd, num 3, tok T_then, tok T_period]"


definition src_mul :: "Token list" where
  "src_mul = [tok T_varDecl, ident ''x'', tok T_scomma,
              ident ''x'', tok T_assign, num 6, tok T_mul, num 4, tok T_period]"

definition body_state :: "Token list \<Rightarrow> comp" where
  "body_state input = \<lparr>nErrors = 0, diags = [], ts = input,
     symtbl = [(0, ''main'', \<lparr>skind = sym_proc, slevel = 0, svalue = 1\<rparr>),
               (1, ''x'', \<lparr>skind = sym_identifier, slevel = 0, svalue = 4\<rparr>)],
     fresh = 2,
     emitted = [\<lparr>addr = 1, op = cop_jump, level = 0\<rparr>, \<lparr>addr = 5, op = cop_enter, level = 0\<rparr>]\<rparr>"








text \<open>A block that declares two variables.\<close>

definition src_vars :: "Token list" where
  "src_vars = [tok T_varDecl, ident ''y'', tok T_comma, ident ''z'', tok T_scomma, tok T_period]"

text \<open>
  A subroutine header that names one formal argument twice, the compiler's state after the
  name of the subroutine has been entered, and a subroutine whose block declares a variable
  of the name of its formal argument.
\<close>

definition src_dup :: "Token list" where
  "src_dup = [tok T_procDecl, ident ''p'', tok T_lparen, ident ''a'', tok T_comma, ident ''a'',
              tok T_rparen, tok T_scomma, tok T_period]"

definition src_formal_var :: "Token list" where
  "src_formal_var = [tok T_procDecl, ident ''p'', tok T_lparen, ident ''a'', tok T_rparen,
                     tok T_varDecl, ident ''a'', tok T_scomma, tok T_scomma, tok T_period]"

definition dup_header :: "Token list \<Rightarrow> comp" where
  "dup_header input = \<lparr>nErrors = 0, diags = [], ts = input,
     symtbl = [(0, ''main'', \<lparr>skind = sym_proc, slevel = 0, svalue = 0\<rparr>),
               (1, ''p'', \<lparr>skind = sym_proc, slevel = 0, svalue = 0\<rparr>)],
     fresh = 2,
     emitted = [\<lparr>addr = 0, op = cop_jump, level = 0\<rparr>]\<rparr>"

section \<open>Properties of the interpreter\<close>

subsection \<open>Stack cells and the fetch\<close>

lemma bnd_simps [simp]: "bnd (Inr x) f = f x" "bnd (Inl e) f = Inl e"
  by (simp_all add: bnd_def)

lemma bnd_Inr: "bnd r f = Inr y \<Longrightarrow> \<exists>x. r = Inr x \<and> f x = Inr y"
  by (cases r) simp_all

lemma wr_Inr: "wr s i v = Inr s' \<Longrightarrow> in_range s i \<and> s' = s[nat (sint i) := v]"
  by (auto simp: wr_def split: if_splits)

lemma in_range_update [simp]: "in_range (s[k := v]) i = in_range s i"
  by (simp add: in_range_def)

lemma rd_update_same: "in_range s i \<Longrightarrow> rd (s[nat (sint i) := v]) i = Inr v"
  by (simp add: rd_def in_range_def)

lemma rd_update_other:
  assumes "i \<noteq> j" "in_range s i" "in_range s j"
  shows "rd (s[nat (sint j) := v]) i = rd s i"
proof -
  from assms(1) have "sint i \<noteq> sint j"
    using signed_word_eqI [of i j] by auto
  with assms(2,3) have "nat (sint i) \<noteq> nat (sint j)"
    unfolding in_range_def by linarith
  then show ?thesis by (simp add: rd_def)
qed

lemma base_fetch [simp]: "base (fetch m) l = base m l"
  by (simp add: base_def fetch_def)

lemma fetch_sel [simp]:
  "stack (fetch m) = stack m" "sp (fetch m) = sp m" "bp (fetch m) = bp m"
  "pc (fetch m) = pc m + 1" "code (fetch m) = code m"
  "ir (fetch m) = code m ! nat (sint (pc m))"
  by (simp_all add: fetch_def)

lemma step_Inr: "step m = Inr m' \<Longrightarrow> fetch_ok m \<and> dispatch (fetch m) = Inr m'"
  by (simp add: step_def split: if_splits)

lemma dispatch_call:
  "op (ir m) = op_call \<Longrightarrow> dispatch m =
     bnd (base m (scast (level (ir m)))) (\<lambda>b.
     bnd (wr (stack m) (sp m + 1 + FrameBase) (ucast b)) (\<lambda>s0.
     bnd (wr s0 (sp m + 1 + FrameOldBp) (bp m)) (\<lambda>s1.
     bnd (wr s1 (sp m + 1 + FrameRetAddr) (pc m)) (\<lambda>s2.
     bnd (wr s2 (sp m + 1 + FrameRetVal) 0) (\<lambda>s3.
     Inr (m\<lparr>stack := s3, bp := sp m + 1, sp := sp m + FrameSize, pc := addr (ir m)\<rparr>))))))"
  by (simp add: dispatch_def)

lemma dispatch_ret: "op (ir m) = op_ret \<Longrightarrow> dispatch m = ret m"
  by (simp add: dispatch_def)

lemma dispatch_enter:
  "op (ir m) = op_enter \<Longrightarrow> dispatch m = Inr (m\<lparr>sp := sp m + addr (ir m)\<rparr>)"
  by (simp add: dispatch_def)

lemma dispatch_div: "op (ir m) = op_div \<Longrightarrow> dispatch m = binop div_op m"
  by (simp add: dispatch_def)

lemma dispatch_rem: "op (ir m) = op_rem \<Longrightarrow> dispatch m = binop rem_op m"
  by (simp add: dispatch_def)

lemmas interp_defs =
  step_def fetch_ok_def fetch_def dispatch_def base_def wr_def rd_def in_range_def ret_def
  binop_def unop_def div_op_def rem_op_def truth_def reset_def interp_def
  FrameBase_def FrameOldBp_def FrameRetAddr_def FrameRetVal_def FrameSize_def Let_def

subsection \<open>Call and return\<close>

lemma step_call:
  assumes st: "step m = Inr m'"
    and i: "i = code m ! nat (sint (pc m))"
    and opc: "op i = op_call"
    and b: "base m (scast (level i)) = Inr b"
  shows "bp m' = sp m + 1 \<and> sp m' = sp m + 4 \<and> pc m' = addr i \<and>
         rd (stack m') (bp m') = Inr (ucast b) \<and>
         rd (stack m') (bp m' + 1) = Inr (bp m) \<and>
         rd (stack m') (bp m' + 2) = Inr (pc m + 1) \<and>
         rd (stack m') (bp m' + 3) = Inr 0"
proof -
  from st have d: "dispatch (fetch m) = Inr m'"
    by (simp add: step_Inr)
  from d obtain s0 s1 s2 s3 where
    w0: "wr (stack m) (sp m + 1 + FrameBase) (ucast b) = Inr s0" and
    w1: "wr s0 (sp m + 1 + FrameOldBp) (bp m) = Inr s1" and
    w2: "wr s1 (sp m + 1 + FrameRetAddr) (pc m + 1) = Inr s2" and
    w3: "wr s2 (sp m + 1 + FrameRetVal) 0 = Inr s3" and
    m': "m' = (fetch m)\<lparr>stack := s3, bp := sp m + 1, sp := sp m + FrameSize, pc := addr i\<rparr>"
    using b opc i by (auto simp: dispatch_call dest!: bnd_Inr)
  show ?thesis
    using wr_Inr[OF w0] wr_Inr[OF w1] wr_Inr[OF w2] wr_Inr[OF w3]
    by (simp add: m' FrameBase_def FrameOldBp_def FrameRetAddr_def FrameRetVal_def FrameSize_def
        rd_update_same rd_update_other)
qed

lemma step_call_base:
  assumes st: "step m = Inr m'" and opc: "op (code m ! nat (sint (pc m))) = op_call"
  shows "\<exists>b. base m (scast (level (code m ! nat (sint (pc m))))) = Inr b"
  using step_Inr[OF st] opc by (auto simp: dispatch_call dest!: bnd_Inr)

lemma step_call_m0: "step call_m0 = Inr call_m1"
  by (simp add: call_m0_def call_m1_def call_prog_def Instr0_def interp_defs)

lemma step_call_m1: "step call_m1 = Inr call_m2"
  by (simp add: call_m1_def call_m2_def call_prog_def interp_defs)




text \<open>
  Claim C4. Let a cycle execute a \<^verbatim>\<open>Call\<close> in state \<open>m0\<close>, giving \<open>m1\<close>, and let \<open>mk\<close> be a
  later state of the callee: \<open>bp\<close> is the callee's and the saved \<open>bp\<close> and return address of
  the frame header are unmodified. Then a cycle that executes \<^verbatim>\<open>Ret nargs\<close> in \<open>mk\<close> restores
  \<open>bp\<close> to its value before the call, sets \<open>sp\<close> to its value before the call minus
  \<open>nargs\<close>, and sets \<open>pc\<close> to the instruction after the call.
\<close>

theorem call_ret_restores:
  assumes call: "step m0 = Inr m1" "op (code m0 ! nat (sint (pc m0))) = op_call"
    and same: "bp mk = bp m1"
      "rd (stack mk) (bp mk + 1) = rd (stack m1) (bp m1 + 1)"
      "rd (stack mk) (bp mk + 2) = rd (stack m1) (bp m1 + 2)"
    and ret: "step mk = Inr m'" "j = code mk ! nat (sint (pc mk))" "op j = op_ret"
  shows "bp m' = bp m0 \<and> sp m' = sp m0 - addr j \<and> pc m' = pc m0 + 1"
proof -
  from step_call_base[OF call] obtain b where
    b: "base m0 (scast (level (code m0 ! nat (sint (pc m0))))) = Inr b" by blast
  note fr = step_call[OF call(1) refl call(2) b]
  from ret have "ret (fetch mk) = Inr m'"
    using step_Inr[OF ret(1)] by (simp add: dispatch_ret)
  then show ?thesis
    using fr same ret(2)
    by (auto simp: ret_def Let_def FrameRetAddr_def FrameOldBp_def dest!: bnd_Inr)
qed

theorem call_ret_restores_witness:
  "step call_m0 = Inr call_m1 \<and> op (code call_m0 ! nat (sint (pc call_m0))) = op_call \<and>
   step call_m1 = Inr call_m2 \<and> op (code call_m1 ! nat (sint (pc call_m1))) = op_ret \<and>
   addr (code call_m1 ! nat (sint (pc call_m1))) = 1 \<and>
   bp call_m2 = bp call_m0 \<and> sp call_m2 = sp call_m0 - 1 \<and> pc call_m2 = pc call_m0 + 1"
proof -
  have o: "op (code call_m0 ! nat (sint (pc call_m0))) = op_call"
    by (simp add: call_m0_def call_prog_def)
  have r: "op (code call_m1 ! nat (sint (pc call_m1))) = op_ret"
    by (simp add: call_m1_def call_prog_def)
  have a: "addr (code call_m1 ! nat (sint (pc call_m1))) = 1"
    by (simp add: call_m1_def call_prog_def)
  from call_ret_restores [OF step_call_m0 o refl refl refl step_call_m1 refl r]
  show ?thesis
    using step_call_m0 step_call_m1 o r a by simp
qed

subsection \<open>Division by zero\<close>

lemma step_div_zero:
  assumes "fetch_ok m" and "i = code m ! nat (sint (pc m))" and "op i = op_div \<or> op i = op_rem"
    and "rd (stack m) (sp m) = Inr 0" and "in_range (stack m) (sp m - 1)"
  shows "step m = Inl (Undefined DivideByZero)"
proof -
  from assms(5) obtain a where a: "rd (stack m) (sp m - 1) = Inr a"
    by (simp add: rd_def)
  have "binop div_op (fetch m) = Inl (Undefined DivideByZero)"
    and "binop rem_op (fetch m) = Inl (Undefined DivideByZero)"
    using a assms(4) by (simp_all add: binop_def Let_def div_op_def rem_op_def)
  then show ?thesis
    using assms(1,2,3) by (auto simp: step_def dispatch_div dispatch_rem)
qed

text \<open>
  Claim C8, as stated, fails: on the program \<open>div_prog\<close>, which pushes 1 and 0 and divides,
  the run ends in the cycle of the division with the undefined outcome of an untested
  division by zero, which is not one of the outcomes the interpreter reports.
\<close>

theorem div_by_zero_not_reported:
  "interp 3 call_m0 div_prog = Some (Inl (Undefined DivideByZero)) \<and>
   \<not> reported (Undefined DivideByZero)"
  by (simp add: call_m0_def div_prog_def Instr0_def interp_defs reported_def numeral_eq_Suc)

text \<open>
  Claim C8, amended. When a cycle executes a division or remainder instruction whose
  divisor (top of stack) is 0, with both operands inside the stack, the interpreter makes
  no test of the divisor: the outcome is the undefined division by zero of the host, not a
  failed assertion or another diagnostic of the interpreter.
\<close>

theorem div_by_zero_undefined:
  assumes "fetch_ok m" and "i = code m ! nat (sint (pc m))" and "op i = op_div \<or> op i = op_rem"
    and "rd (stack m) (sp m) = Inr 0" and "in_range (stack m) (sp m - 1)"
  shows "step m = Inl (Undefined DivideByZero) \<and> \<not> reported (Undefined DivideByZero)"
  using step_div_zero [OF assms] by (simp add: reported_def)

theorem div_by_zero_undefined_witness:
  "fetch_ok div_m2 \<and> op (code div_m2 ! nat (sint (pc div_m2))) = op_div \<and>
   rd (stack div_m2) (sp div_m2) = Inr 0 \<and> in_range (stack div_m2) (sp div_m2 - 1) \<and>
   step div_m2 = Inl (Undefined DivideByZero)"
proof -
  have f: "fetch_ok div_m2"
    by (simp add: div_m2_def div_prog_def fetch_ok_def)
  have o: "op (code div_m2 ! nat (sint (pc div_m2))) = op_div \<or>
           op (code div_m2 ! nat (sint (pc div_m2))) = op_rem"
    by (simp add: div_m2_def div_prog_def)
  have r: "rd (stack div_m2) (sp div_m2) = Inr 0"
    by (simp add: div_m2_def rd_def in_range_def)
  have n: "in_range (stack div_m2) (sp div_m2 - 1)"
    by (simp add: div_m2_def in_range_def)
  from div_by_zero_undefined [OF f refl o r n] show ?thesis
    using f r n by (simp add: div_m2_def div_prog_def)
qed

subsection \<open>Enter\<close>

lemma step_enter:
  assumes "fetch_ok m" and "i = code m ! nat (sint (pc m))" and "op i = op_enter"
  shows "step m = Inr ((fetch m)\<lparr>sp := sp m + addr i\<rparr>)"
  using assms by (simp add: step_def dispatch_enter)

lemma step_enter_m1: "step enter_m1 = Inr enter_m2"
  by (simp add: enter_m1_def enter_m2_def enter_prog_def interp_defs)

subsection \<open>Starting a run\<close>

lemma fetch_ok_ir [simp]: "fetch_ok (m\<lparr>ir := x\<rparr>) = fetch_ok m"
  by (simp add: fetch_ok_def)

lemma fetch_ir [simp]: "fetch (m\<lparr>ir := x\<rparr>) = fetch m"
  by (simp add: fetch_def)

lemma step_ir [simp]: "step (m\<lparr>ir := x\<rparr>) = step m"
  by (simp add: step_def)

lemma run_ir: "run fuel (m\<lparr>ir := x\<rparr>) c = run fuel m c"
  by (cases fuel) simp_all

lemma trace_ir: "trace fuel (m\<lparr>ir := x\<rparr>) = trace fuel m"
  by (cases fuel) simp_all

lemma reset_ok:
  assumes "4 \<le> length (stack m)"
  shows "reset m =
    Inr (m\<lparr>pc := 0, stack := (stack m)[3 := 0, 2 := 0, 1 := 0, 0 := 0], bp := 0, sp := 3\<rparr>)"
proof -
  from assms have "stack m \<noteq> []" by auto
  with assms show ?thesis by (simp add: reset_def wr_def in_range_def)
qed

lemma reset_short:
  assumes "length (stack m) < 4"
  shows "reset m = Inl (Undefined OutOfRange)"
  using assms by (simp add: reset_def wr_def in_range_def)

lemma start_ok:
  assumes "4 \<le> length (stack m)"
  shows "reset (m\<lparr>stack := replicate (length (stack m)) (- 1), code := program\<rparr>) =
    Inr \<lparr>code = program, stack = [0, 0, 0, 0] @ replicate (length (stack m) - 4) (- 1),
         pc = 0, bp = 0, sp = 3, ir = ir m\<rparr>"
proof -
  obtain k where k: "length (stack m) = 4 + k"
    using assms by (metis le_Suc_ex)
  have "(replicate (4 + k) (- 1 :: Integer))[3 := 0, 2 := 0, 1 := 0, 0 := 0] =
        [0, 0, 0, 0] @ replicate k (- 1)"
    by (simp add: numeral_eq_Suc)
  then show ?thesis
    using assms by (simp add: reset_ok k)
qed

lemma start_short:
  assumes "length (stack m) < 4"
  shows "reset (m\<lparr>stack := replicate (length (stack m)) (- 1), code := program\<rparr>) =
    Inl (Undefined OutOfRange)"
  using assms by (simp add: reset_short)

text \<open>
  Claim C10. A run depends on the program and the size of the stack only, not on what an
  earlier run left in the machine: \<^verbatim>\<open>operator()\<close> fills every stack cell with \<open>-1\<close>, then
  sets \<open>stack[0..3] = 0\<close>, \<open>pc = 0\<close>, \<open>bp = 0\<close>, \<open>sp = 3\<close>, so two invocations on the same
  program pass through the same machine states after every cycle and give the same result
  and cycle count. (Only \<open>ir\<close> is left as it was; the first fetch overwrites it.)
\<close>

theorem interp_history_independent:
  assumes "length (stack m1) = length (stack m2)"
  shows "interp fuel m1 program = interp fuel m2 program \<and>
         interp_trace fuel m1 program = interp_trace fuel m2 program \<and>
         (4 \<le> length (stack m1) \<longrightarrow>
            reset (m1\<lparr>stack := replicate (length (stack m1)) (- 1), code := program\<rparr>) =
            Inr \<lparr>code = program, stack = [0, 0, 0, 0] @ replicate (length (stack m1) - 4) (- 1),
                 pc = 0, bp = 0, sp = 3, ir = ir m1\<rparr>)"
proof (cases "4 \<le> length (stack m1)")
  case True
  define s where "s = \<lparr>code = program,
    stack = [0, 0, 0, 0] @ replicate (length (stack m1) - 4) (- 1),
    pc = 0, bp = 0, sp = 3, ir = ir m1\<rparr>"
  have 1: "reset (m1\<lparr>stack := replicate (length (stack m1)) (- 1), code := program\<rparr>) = Inr s"
    using True by (simp add: start_ok s_def)
  have 2: "reset (m2\<lparr>stack := replicate (length (stack m2)) (- 1), code := program\<rparr>) =
           Inr (s\<lparr>ir := ir m2\<rparr>)"
    using True assms by (simp add: start_ok s_def)
  have "interp fuel m1 program = interp fuel m2 program"
    by (simp add: interp_def 1 2 run_ir)
  moreover have "interp_trace fuel m1 program = interp_trace fuel m2 program"
    by (simp add: interp_trace_def 1 2 trace_ir)
  ultimately show ?thesis
    using 1 by (simp add: s_def)
next
  case False
  then have a: "length (stack m1) < 4" and b: "length (stack m2) < 4"
    using assms by simp_all
  show ?thesis
    using False by (simp add: interp_def interp_trace_def start_short [OF a] start_short [OF b])
qed

theorem interp_history_independent_witness:
  "length (stack call_m0) = length (stack call_m2) \<and> 4 \<le> length (stack call_m0) \<and>
   interp 5 call_m0 call_prog = interp 5 call_m2 call_prog \<and>
   interp 5 call_m2 call_prog =
     Some (Inr (call_m2\<lparr>pc := 0, ir := \<lparr>addr = 0, op = op_jump, level = 0\<rparr>\<rparr>, 3))"
proof -
  have l: "length (stack call_m0) = length (stack call_m2)"
    by (simp add: call_m0_def call_m2_def)
  have r: "interp 5 call_m2 call_prog =
     Some (Inr (call_m2\<lparr>pc := 0, ir := \<lparr>addr = 0, op = op_jump, level = 0\<rparr>\<rparr>, 3))"
    by (simp add: call_m2_def call_prog_def interp_defs numeral_eq_Suc)
  from interp_history_independent [OF l, of 5 call_prog] show ?thesis
    using l r by (simp add: call_m0_def)
qed

section \<open>Properties of the compiler\<close>

lemma extends_refl [simp]: "extends s s"
  by (simp add: extends_def)

lemma keeps_refl [simp]: "keeps s s"
  by (simp add: keeps_def)

lemma keeps_extends: "keeps s s' \<Longrightarrow> extends s s'"
  by (simp add: keeps_def)

lemma prefix_length_diff:
  "prefix xs ys \<Longrightarrow> prefix ys zs \<Longrightarrow> (length ys - length xs) + (length zs - length ys) = length zs - length xs"
  by (auto simp: prefix_def)

lemma extends_trans: "extends a b \<Longrightarrow> extends b c \<Longrightarrow> extends a c"
  unfolding extends_def
  by (auto intro: suffix_order.trans simp: prefix_def)

lemma keeps_trans: "keeps a b \<Longrightarrow> keeps b c \<Longrightarrow> keeps a c"
  unfolding keeps_def by (auto intro: extends_trans)

lemma extends_next_token: "extends s st \<Longrightarrow> extends s (next_token st)"
  unfolding extends_def next_token_def
  by (auto intro: suffix_order.trans suffix_tl)

lemma extends_error: "extends s st \<Longrightarrow> extends s (error d st)"
  unfolding extends_def error_def
  by (auto simp: prefix_def)

lemma extends_emit: "extends s st \<Longrightarrow> extends s (snd (emit opc l a st))"
  unfolding extends_def emit_def
  by (auto simp: prefix_def)

lemma extends_accept: "extends s st \<Longrightarrow> extends s (snd (accept k g st))"
  by (simp add: accept_def extends_next_token)

lemma extends_expect: "extends s st \<Longrightarrow> extends s (snd (expect k g st))"
  by (auto simp add: expect_def accept_def extends_next_token extends_error)

lemma extends_patch:
  "extends s st \<Longrightarrow> length (emitted s) \<le> loc \<Longrightarrow> extends s (patch loc a st)"
  unfolding extends_def patch_def
  by (auto simp: prefix_def list_update_append)

lemma extends_insert_sym: "extends s st \<Longrightarrow> extends s (snd (insert_sym name v st))"
  unfolding extends_def insert_sym_def by auto

lemma extends_set_value: "extends s st \<Longrightarrow> extends s (set_value r a st)"
  unfolding extends_def set_value_def by auto

lemma extends_purge: "extends s st \<Longrightarrow> extends s (purge lev st)"
  unfolding extends_def purge_def by auto

lemma keeps_next_token: "keeps s st \<Longrightarrow> keeps s (next_token st)"
  unfolding keeps_def by (simp add: extends_next_token) (simp add: next_token_def)

lemma keeps_error: "keeps s st \<Longrightarrow> keeps s (error d st)"
  unfolding keeps_def by (simp add: extends_error) (simp add: error_def)

lemma keeps_emit: "keeps s st \<Longrightarrow> keeps s (snd (emit opc l a st))"
  unfolding keeps_def by (simp add: extends_emit) (simp add: emit_def)

lemma keeps_accept: "keeps s st \<Longrightarrow> keeps s (snd (accept k g st))"
  by (simp add: accept_def keeps_next_token)

lemma keeps_expect: "keeps s st \<Longrightarrow> keeps s (snd (expect k g st))"
  by (auto simp add: expect_def accept_def keeps_next_token keeps_error)

lemma keeps_patch:
  "keeps s st \<Longrightarrow> length (emitted s) \<le> loc \<Longrightarrow> keeps s (patch loc a st)"
  unfolding keeps_def by (simp add: extends_patch) (simp add: patch_def)

lemma extends_length: "extends s st \<Longrightarrow> length (emitted s) \<le> length (emitted st)"
  by (auto simp: extends_def prefix_def)

lemma keeps_length: "keeps s st \<Longrightarrow> length (emitted s) \<le> length (emitted st)"
  by (simp add: keeps_def extends_length)

lemmas keeps_intros = keeps_next_token keeps_error keeps_emit keeps_accept keeps_expect

lemma accept_cases:
  "accept k g st = (b, st') \<Longrightarrow> st' = snd (accept k g st) \<and> b = (kind (current st) = k)"
  by (auto simp: accept_def split: if_splits)

lemma presD: "pres R f \<Longrightarrow> f lev st = Some st' \<Longrightarrow> R s st \<Longrightarrow> R s st'"
  unfolding pres_def by blast

lemma presI: "(\<And>s lev st st'. R s st \<Longrightarrow> f lev st = Some st' \<Longrightarrow> R s st') \<Longrightarrow> pres R f"
  unfolding pres_def by blast

lemma pres_0 [simp]: "pres R (\<lambda>lev st. None)"
  by (simp add: pres_def)

lemma expr_group_keeps:
  "pres keeps (identifier_factor n) \<and> pres keeps (args_loop n) \<and> pres keeps (factor n) \<and>
   pres keeps (terminal n) \<and> pres keeps (terminal_loop n) \<and> pres keeps (expression n) \<and>
   pres keeps (expression_loop n)"
proof (induction n)
  case 0
  show ?case by (simp add: pres_def)
next
  case (Suc n)
  note IH2 = presD [OF conjunct1 [OF conjunct2 [OF Suc.IH]]]
  note IH1 = presD [OF conjunct1 [OF Suc.IH]]
  note r2 = conjunct2 [OF conjunct2 [OF Suc.IH]]
  note IH3 = presD [OF conjunct1 [OF r2]]
  note IH4 = presD [OF conjunct1 [OF conjunct2 [OF r2]]]
  note r4 = conjunct2 [OF conjunct2 [OF r2]]
  note IH5 = presD [OF conjunct1 [OF r4]]
  note IH6 = presD [OF conjunct1 [OF conjunct2 [OF r4]]]
  note IH7 = presD [OF conjunct2 [OF conjunct2 [OF r4]]]
  have 1: "pres keeps (identifier_factor (Suc n))"
    by (rule presI)
      (auto simp: Let_def split: option.splits prod.splits SymKind.splits if_splits bind_splits bool.splits
        intro!: keeps_intros elim: IH2)
  have 2: "pres keeps (args_loop (Suc n))"
    by (rule presI)
      (auto simp: Let_def split: option.splits prod.splits if_splits bind_splits bool.splits
        dest!: accept_cases intro!: keeps_intros elim: IH2 IH6)
  have 3: "pres keeps (factor (Suc n))"
    by (rule presI)
      (auto simp: Let_def split: option.splits prod.splits if_splits bind_splits bool.splits
        dest!: accept_cases intro!: keeps_intros elim: IH1 IH6)
  have 4: "pres keeps (terminal (Suc n))"
    by (rule presI)
      (auto simp: Let_def split: option.splits prod.splits if_splits bind_splits bool.splits
        elim: IH3 IH5)
  have 5: "pres keeps (terminal_loop (Suc n))"
    by (rule presI)
      (auto simp: Let_def split: option.splits prod.splits if_splits bind_splits bool.splits
        elim: IH3 IH5 intro!: keeps_intros)
  have 6: "pres keeps (expression (Suc n))"
    by (rule presI)
      (auto simp: Let_def split: option.splits prod.splits if_splits bind_splits bool.splits
        elim: IH4 IH7 intro!: keeps_intros)
  have 7: "pres keeps (expression_loop (Suc n))"
    by (rule presI)
      (auto simp: Let_def split: option.splits prod.splits if_splits bind_splits bool.splits
        elim: IH4 IH7 intro!: keeps_intros)
  show ?case by (intro conjI 1 2 3 4 5 6 7)
qed

lemmas expr_keeps =
  presD [OF conjunct1 [OF expr_group_keeps]]
  presD [OF conjunct1 [OF conjunct2 [OF expr_group_keeps]]]
  presD [OF conjunct1 [OF conjunct2 [OF conjunct2 [OF expr_group_keeps]]]]
  presD [OF conjunct1 [OF conjunct2 [OF conjunct2 [OF conjunct2 [OF expr_group_keeps]]]]]
  presD [OF conjunct1 [OF conjunct2 [OF conjunct2 [OF conjunct2 [OF conjunct2 [OF expr_group_keeps]]]]]]
  presD [OF conjunct1 [OF conjunct2 [OF conjunct2 [OF conjunct2 [OF conjunct2 [OF conjunct2 [OF expr_group_keeps]]]]]]]
  presD [OF conjunct2 [OF conjunct2 [OF conjunct2 [OF conjunct2 [OF conjunct2 [OF conjunct2 [OF expr_group_keeps]]]]]]]

lemma emit_cases:
  "emit opc l a st = (p, st') \<Longrightarrow> p = length (emitted st) \<and> st' = snd (emit opc l a st)"
  by (auto simp: emit_def)

lemma condition_keeps: "condition n lev st = Some st' \<Longrightarrow> keeps s st \<Longrightarrow> keeps s st'"
  unfolding condition_def
  by (auto simp: Let_def split: option.splits prod.splits if_splits bind_splits bool.splits
      dest!: accept_cases intro!: keeps_intros elim: expr_keeps)

lemma assignStmt_keeps: "assignStmt n name val lev st = Some st' \<Longrightarrow> keeps s st \<Longrightarrow> keeps s st'"
  unfolding assignStmt_def
  by (auto simp: Let_def split: SymKind.splits bind_splits
      intro!: keeps_intros elim: expr_keeps)

lemma callStmt_keeps: "callStmt n name val lev st = Some st' \<Longrightarrow> keeps s st \<Longrightarrow> keeps s st'"
  unfolding callStmt_def
  by (auto simp: Let_def split: if_splits bind_splits
      intro!: keeps_intros elim: expr_keeps)

lemma identStmt_keeps: "identStmt n lev st = Some st' \<Longrightarrow> keeps s st \<Longrightarrow> keeps s st'"
  unfolding identStmt_def
  by (auto simp: Let_def split: option.splits prod.splits bool.splits
      dest!: accept_cases intro!: keeps_intros elim: assignStmt_keeps callStmt_keeps)

lemma stmt_group_keeps:
  "pres keeps (whileStmt n) \<and> pres keeps (ifStmt n) \<and> pres keeps (repeatStmt n) \<and>
   pres keeps (statement n) \<and> pres keeps (statement_loop n)"
proof (induction n)
  case 0
  show ?case by (simp add: pres_def)
next
  case (Suc n)
  note IH1 = presD [OF conjunct1 [OF Suc.IH]]
  note IH2 = presD [OF conjunct1 [OF conjunct2 [OF Suc.IH]]]
  note r2 = conjunct2 [OF conjunct2 [OF Suc.IH]]
  note IH3 = presD [OF conjunct1 [OF r2]]
  note IH4 = presD [OF conjunct1 [OF conjunct2 [OF r2]]]
  note IH5 = presD [OF conjunct2 [OF conjunct2 [OF r2]]]
  have 1: "pres keeps (whileStmt (Suc n))"
    by (rule presI)
      (auto simp: Let_def split: prod.splits bind_splits dest!: emit_cases
        intro!: keeps_patch keeps_intros keeps_length elim!: IH4 condition_keeps)
  have 2: "pres keeps (ifStmt (Suc n))"
    by (rule presI)
      (auto simp: Let_def split: prod.splits bind_splits bool.splits dest!: emit_cases accept_cases
        intro!: keeps_patch keeps_intros keeps_length elim!: IH4 condition_keeps)
  have 3: "pres keeps (repeatStmt (Suc n))"
    by (rule presI)
      (auto simp: Let_def split: prod.splits bind_splits
        intro!: keeps_intros elim!: IH4 condition_keeps)
  have 4: "pres keeps (statement (Suc n))"
    by (rule presI)
      (auto simp: Let_def split: prod.splits bind_splits bool.splits if_splits dest!: accept_cases
        intro!: keeps_intros elim!: IH1 IH2 IH3 IH5 identStmt_keeps)
  have 5: "pres keeps (statement_loop (Suc n))"
    by (rule presI)
      (auto simp: Let_def split: prod.splits bind_splits bool.splits dest!: accept_cases
        intro!: keeps_intros elim!: IH4 IH5)
  show ?case by (intro conjI 1 2 3 4 5)
qed

lemmas stmt_keeps =
  presD [OF conjunct1 [OF stmt_group_keeps]]
  presD [OF conjunct1 [OF conjunct2 [OF stmt_group_keeps]]]
  presD [OF conjunct1 [OF conjunct2 [OF conjunct2 [OF stmt_group_keeps]]]]
  presD [OF conjunct1 [OF conjunct2 [OF conjunct2 [OF conjunct2 [OF stmt_group_keeps]]]]]
  presD [OF conjunct2 [OF conjunct2 [OF conjunct2 [OF conjunct2 [OF stmt_group_keeps]]]]]

lemma den_weaken: "den b L s st \<Longrightarrow> L \<le> L' \<Longrightarrow> den b L' s st"
  unfolding den_def scoped_def by fastforce

lemma den_keeps: "keeps st st' \<Longrightarrow> den b L s st \<Longrightarrow> den b L s st'"
  unfolding den_def keeps_def scoped_def by (auto intro: extends_trans)

lemma den_next_token: "den b L s st \<Longrightarrow> den b L s (next_token st)"
  unfolding den_def by (simp add: extends_next_token) (simp add: scoped_def next_token_def)

lemma den_error: "den b L s st \<Longrightarrow> den b L s (error d st)"
  unfolding den_def by (simp add: extends_error) (simp add: scoped_def error_def)

lemma den_emit: "den b L s st \<Longrightarrow> den b L s (snd (emit opc l a st))"
  unfolding den_def by (simp add: extends_emit) (simp add: scoped_def emit_def)

lemma den_accept: "den b L s st \<Longrightarrow> den b L s (snd (accept k g st))"
  by (simp add: accept_def den_next_token)

lemma den_expect: "den b L s st \<Longrightarrow> den b L s (snd (expect k g st))"
  by (auto simp add: expect_def accept_def den_next_token den_error)

lemma den_patch: "den b L s st \<Longrightarrow> length (emitted s) \<le> loc \<Longrightarrow> den b L s (patch loc a st)"
  unfolding den_def by (simp add: extends_patch) (simp add: scoped_def patch_def)

lemma den_set_value: "den b L s st \<Longrightarrow> den b L s (set_value r a st)"
  unfolding den_def by (simp add: extends_set_value) (auto simp add: scoped_def set_value_def)

lemma den_insert_sym:
  "den b L s st \<Longrightarrow> slevel v \<le> L \<Longrightarrow> den b L s (snd (insert_sym name v st))"
  unfolding den_def by (simp add: extends_insert_sym) (simp add: scoped_def insert_sym_def)

lemma den_purge: "den b L s st \<Longrightarrow> den b (L - 1) s (purge L st)"
  unfolding den_def by (simp add: extends_purge) (auto simp add: scoped_def purge_def)

lemma den_length: "den b L s st \<Longrightarrow> length (emitted s) \<le> length (emitted st)"
  by (simp add: den_def extends_length)

lemmas den_intros = den_next_token den_error den_emit den_accept den_expect

lemma expect_cases:
  "expect k g st = (b, st') \<Longrightarrow> st' = snd (expect k g st) \<and> b = (kind (current st) = k)"
  by (auto simp: expect_def accept_def split: if_splits)

lemma den_constDecl: "den b lev s st \<Longrightarrow> den b lev s (constDecl lev st)"
  unfolding constDecl_def
  by (auto simp: Let_def split: prod.splits bool.splits dest!: expect_cases
      intro!: den_intros den_insert_sym)

lemma den_varDecl: "den b lev s st \<Longrightarrow> den b lev s (snd (varDecl off lev st))"
  unfolding varDecl_def
  by (auto simp: Let_def split: prod.splits bool.splits dest!: expect_cases
      intro!: den_intros den_insert_sym)

lemma den_constDecl_loop:
  "constDecl_loop n lev st = Some st' \<Longrightarrow> den b lev s st \<Longrightarrow> den b lev s st'"
proof (induction n arbitrary: st)
  case 0
  then show ?case by simp
next
  case (Suc n)
  from Suc.prems show ?case
    by (auto split: prod.splits bool.splits dest!: accept_cases
        intro!: den_intros den_constDecl elim!: Suc.IH)
qed

lemma den_varDecl_loop:
  "varDecl_loop n dx lev st = Some r \<Longrightarrow> den b lev s st \<Longrightarrow> den b lev s (snd r)"
proof (induction n arbitrary: st dx)
  case 0
  then show ?case by simp
next
  case (Suc n)
  from Suc.prems show ?case
    apply (clarsimp split: prod.splits bool.splits dest!: accept_cases)
    subgoal for a c
      using den_varDecl [of b lev s st dx] by (auto intro!: den_intros elim!: Suc.IH)
    subgoal for c
      using den_varDecl [of b lev s st dx] by (auto intro!: den_intros)
    done
qed

lemma den_formals_loop:
  "formals_loop n args st = Some r \<Longrightarrow> den b L s st \<Longrightarrow> den b L s (snd r)"
proof (induction n arbitrary: st args)
  case 0
  then show ?case by simp
next
  case (Suc n)
  from Suc.prems show ?case
    by (auto simp: Let_def split: prod.splits bool.splits dest!: accept_cases
        intro!: den_intros elim!: Suc.IH)
qed

lemma den_formals_loop':
  "formals_loop n args st = Some (a, st') \<Longrightarrow> den b L s st \<Longrightarrow> den b L s st'"
  using den_formals_loop [of n args st "(a, st')" b L s] by simp

lemma den_varDecl_loop':
  "varDecl_loop n dx lev st = Some (a, st') \<Longrightarrow> den b lev s st \<Longrightarrow> den b lev s st'"
  using den_varDecl_loop [of n dx lev st "(a, st')" b s] by simp

lemma den_insert_formals:
  "den b L s st \<Longrightarrow> lev \<le> L \<Longrightarrow> den b L s (insert_formals args off lev st)"
  by (induction args arbitrary: off st) (simp_all add: den_insert_sym)

lemma den_redefinitions: "den b L s st \<Longrightarrow> den b L s (redefinitions name lev rng st)"
  by (induction rng arbitrary: st) (auto intro!: den_error)

lemma fst_accept [simp]: "fst (accept k g st) = (kind (current st) = k)"
  by (simp add: accept_def)

lemma fst_expect [simp]: "fst (expect k g st) = (kind (current st) = k)"
  by (simp add: expect_def accept_def)

lemma fst_emit [simp]: "fst (emit opc l a st) = length (emitted st)"
  by (simp add: emit_def)

lemma fst_insert_sym [simp]: "fst (insert_sym name v st) = fresh st"
  by (simp add: insert_sym_def)

lemmas unpair = case_prod_beta Let_def

lemma den_declare_sub: "den b lev s st \<Longrightarrow> den b lev s (snd (declare_sub knd name lev st))"
  unfolding declare_sub_def
  by (simp add: unpair den_insert_sym den_redefinitions)

lemma den_formals:
  assumes "formals n lev st = Some r" and "den b lev s st"
  shows "den b (lev + 1) s (snd r)"
proof (cases "kind (current st) = T_identifier")
  case True
  with assms(1) obtain x where x: "formals_loop n [] st = Some x"
    and r: "r = (fst x, insert_formals (fst x) (- of_nat (length (fst x))) (lev + 1) (snd x))"
    by (auto simp: formals_def unpair split: bind_splits)
  have "den b lev s (snd x)" using den_formals_loop [OF x assms(2)] .
  then have "den b (lev + 1) s (snd x)" by (rule den_weaken) simp
  then show ?thesis by (simp add: r den_insert_formals)
next
  case False
  with assms(1) have "r = ([], st)" by (simp add: formals_def)
  then show ?thesis using assms(2) by (auto intro: den_weaken)
qed

lemma den_constSection:
  "constSection n lev st = Some st' \<Longrightarrow> den b lev s st \<Longrightarrow> den b lev s st'"
  unfolding constSection_def
  by (auto simp: unpair split: bool.splits bind_splits intro!: den_intros elim!: den_constDecl_loop)

lemma den_varSection:
  assumes "varSection n dx lev st = Some r" and "den b lev s st"
  shows "den b lev s (snd r)"
proof (cases "kind (current st) = T_varDecl")
  case True
  with assms(1) obtain x where x: "varDecl_loop n dx lev (next_token st) = Some x"
    and r: "r = (fst x, snd (expect T_scomma True (snd x)))"
    by (auto simp: varSection_def unpair accept_def split: bind_splits)
  have "den b lev s (snd x)" using den_varDecl_loop [OF x] assms(2) by (simp add: den_intros)
  then show ?thesis by (simp add: r den_intros)
next
  case False
  with assms(1) have "r = (dx, st)" by (simp add: varSection_def unpair accept_def)
  then show ?thesis using assms(2) by simp
qed

lemma den_statement: "statement n lev st = Some st' \<Longrightarrow> den b L s st \<Longrightarrow> den b L s st'"
  using den_keeps [OF stmt_keeps(4) [OF _ keeps_refl]] by blast

lemma block_group_den:
  "(\<forall>b s lev st st'. subDecl n lev st = Some st' \<longrightarrow> den b lev s st \<longrightarrow> den b lev s st') \<and>
   (\<forall>b s lev st st'. subDecl_loop n lev st = Some st' \<longrightarrow> den b lev s st \<longrightarrow> den b lev s st') \<and>
   (\<forall>b s val lev nargs st st'. block n val lev nargs st = Some st' \<longrightarrow> den b lev s st \<longrightarrow>
      den b (lev - 1) s st')"
proof (induction n)
  case 0
  show ?case by simp
next
  case (Suc n)
  have IH1: "\<And>b s lev st st'. subDecl n lev st = Some st' \<Longrightarrow> den b lev s st \<Longrightarrow> den b lev s st'"
    using conjunct1 [OF Suc.IH] by blast
  have IH2: "\<And>b s lev st st'. subDecl_loop n lev st = Some st' \<Longrightarrow> den b lev s st \<Longrightarrow> den b lev s st'"
    using conjunct1 [OF conjunct2 [OF Suc.IH]] by blast
  have IH3: "\<And>b s val lev nargs st st'. block n val (lev + 1) nargs st = Some st' \<Longrightarrow>
      den b (lev + 1) s st \<Longrightarrow> den b lev s st'"
    using conjunct2 [OF conjunct2 [OF Suc.IH]] by fastforce
  have 1: "den b lev s st'" if A: "subDecl (Suc n) lev st = Some st'" and D: "den b lev s st"
    for b s lev st st'
  proof (cases "kind (current (next_token st)) = T_identifier")
    case False
    with A have "st' = snd (expect T_identifier True (next_token st))"
      by (simp add: unpair split: bool.splits)
    then show ?thesis using D by (simp add: den_intros)
  next
    case True
    define d where "d = declare_sub (kind (current st)) (string_value (current (next_token st))) lev
      (snd (expect T_identifier True (next_token st)))"
    from A True obtain r st7 where
      F: "formals n lev (snd (expect T_lparen True (snd d))) = Some r" and
      B: "block n (fst d) (lev + 1) (length (fst r)) (snd (expect T_rparen True (snd r))) = Some st7" and
      E: "st' = snd (expect T_scomma True st7)"
      by (auto simp: unpair d_def split: bool.splits bind_splits)
    have "den b lev s (snd (expect T_lparen True (snd d)))"
      using D unfolding d_def by (intro den_intros den_declare_sub)
    from den_formals [OF F this] have "den b (lev + 1) s (snd (expect T_rparen True (snd r)))"
      by (rule den_expect)
    from IH3 [OF B this] show ?thesis by (simp add: E den_intros)
  qed
  have 2: "den b lev s st'" if "subDecl_loop (Suc n) lev st = Some st'" "den b lev s st" for b s lev st st'
    using that
    by (auto simp: unpair split: bool.splits bind_splits if_splits
        elim!: IH1 IH2)
  have 3: "den b (lev - 1) s st'" if A: "block (Suc n) val lev nargs st = Some st'" and D: "den b lev s st"
    for b s val lev nargs st st'
  proof -
    from A obtain st2 r st4 st7 where
      C: "constSection n lev (snd (emit cop_jump 0 0 st)) = Some st2" and
      V: "varSection n Frame_size lev st2 = Some r" and
      L: "subDecl_loop n lev (snd r) = Some st4" and
      S: "statement n lev (set_value (fst val) (of_nat (length (emitted st4)))
            (patch (length (emitted st)) (of_nat (length (emitted st4)))
              (snd (emit cop_enter 0 (fst r) st4)))) = Some st7" and
      E: "st' = purge lev (if sym_function = snd val then snd (emit cop_reti 0 (of_nat nargs) st7)
                else snd (emit cop_ret 0 (of_nat nargs) st7))"
      by (auto simp: unpair split: bind_splits)
    have d2: "den b lev s st2" using den_constSection [OF C] D by (simp add: den_intros)
    have d3: "den b lev s (snd r)" using den_varSection [OF V d2] .
    have d4: "den b lev s st4" using IH2 [OF L d3] .
    have "length (emitted s) \<le> length (emitted st)" using D by (rule den_length)
    then have "den b lev s st7"
      using den_statement [OF S] d4 by (simp add: den_intros den_set_value den_patch)
    then show ?thesis
      unfolding E by (intro den_purge) (simp add: den_intros)
  qed
  show ?case using 1 2 3 by blast
qed


lemma den_subDecl_loop:
  "subDecl_loop n lev st = Some st' \<Longrightarrow> den b lev s st \<Longrightarrow> den b lev s st'"
  using conjunct1 [OF conjunct2 [OF block_group_den [of n]]] by blast


lemma len_next_token [simp]: "len (next_token st) = len st - 1"
  by (simp add: len_def next_token_def)

lemma len_error [simp]: "len (error d st) = len st"
  by (simp add: len_def error_def)

lemma len_emit [simp]: "len (snd (emit opc l a st)) = len st"
  by (simp add: len_def emit_def)

lemma len_patch [simp]: "len (patch loc a st) = len st"
  by (simp add: len_def patch_def)

lemma len_accept [simp]:
  "len (snd (accept k g st)) = (if g \<and> kind (current st) = k then len st - 1 else len st)"
  by (simp add: accept_def)

lemma len_expect [simp]:
  "len (snd (expect k g st)) = (if g \<and> kind (current st) = k then len st - 1 else len st)"
  by (simp add: expect_def accept_def)

lemma len_pos: "kind (current st) = k \<Longrightarrow> k \<noteq> T_eos \<Longrightarrow> 0 < len st"
  by (auto simp: current_def len_def split: list.splits)

lemma keeps_len: "keeps s st \<Longrightarrow> len st \<le> len s"
  by (auto simp: keeps_def extends_def len_def suffix_def)

lemma extends_len: "extends s st \<Longrightarrow> len st \<le> len s"
  by (auto simp: extends_def len_def suffix_def)

lemma den_len: "den b L s st \<Longrightarrow> len st \<le> len s"
  by (simp add: den_def extends_len)

lemma fits_step: "fits r (Suc n) st \<Longrightarrow> len st' \<le> len st \<Longrightarrow> r' < r \<Longrightarrow> fits r' n st'"
  unfolding fits_def by simp

lemma fits_cons:
  "fits r (Suc n) st \<Longrightarrow> len st' < len st \<Longrightarrow> 0 < r \<Longrightarrow> r' \<le> 8 \<Longrightarrow> fits r' n st'"
  unfolding fits_def by simp

lemma fits_same: "fits r n st \<Longrightarrow> len st' \<le> len st \<Longrightarrow> r' \<le> r \<Longrightarrow> fits r' n st'"
  unfolding fits_def by simp

lemma fits_0 [simp]: "0 < r \<Longrightarrow> \<not> fits r 0 st"
  by (simp add: fits_def)

lemmas expr_len =
  keeps_len [OF expr_keeps(1) [OF _ keeps_refl]]
  keeps_len [OF expr_keeps(2) [OF _ keeps_refl]]
  keeps_len [OF expr_keeps(3) [OF _ keeps_refl]]
  keeps_len [OF expr_keeps(4) [OF _ keeps_refl]]
  keeps_len [OF expr_keeps(5) [OF _ keeps_refl]]
  keeps_len [OF expr_keeps(6) [OF _ keeps_refl]]
  keeps_len [OF expr_keeps(7) [OF _ keeps_refl]]

lemma expr_group_total:
  "(\<forall>lev st. 0 < len st \<longrightarrow> fits 1 n st \<longrightarrow> (\<exists>st'. identifier_factor n lev st = Some st')) \<and>
   (\<forall>lev st. fits 5 n st \<longrightarrow> (\<exists>st'. args_loop n lev st = Some st')) \<and>
   (\<forall>lev st. fits 2 n st \<longrightarrow> (\<exists>st'. factor n lev st = Some st')) \<and>
   (\<forall>lev st. fits 3 n st \<longrightarrow> (\<exists>st'. terminal n lev st = Some st')) \<and>
   (\<forall>lev st. fits 1 n st \<longrightarrow> (\<exists>st'. terminal_loop n lev st = Some st')) \<and>
   (\<forall>lev st. fits 4 n st \<longrightarrow> (\<exists>st'. expression n lev st = Some st')) \<and>
   (\<forall>lev st. fits 1 n st \<longrightarrow> (\<exists>st'. expression_loop n lev st = Some st'))"
proof (induction n)
  case 0
  show ?case by simp
next
  case (Suc n)
  have IH1: "\<And>lev st. 0 < len st \<Longrightarrow> fits 1 n st \<Longrightarrow> \<exists>st'. identifier_factor n lev st = Some st'"
    using Suc.IH by blast
  have IH2: "\<And>lev st. fits 5 n st \<Longrightarrow> \<exists>st'. args_loop n lev st = Some st'"
    using Suc.IH by blast
  have IH3: "\<And>lev st. fits 2 n st \<Longrightarrow> \<exists>st'. factor n lev st = Some st'"
    using Suc.IH by blast
  have IH4: "\<And>lev st. fits 3 n st \<Longrightarrow> \<exists>st'. terminal n lev st = Some st'"
    using Suc.IH by blast
  have IH5: "\<And>lev st. fits 1 n st \<Longrightarrow> \<exists>st'. terminal_loop n lev st = Some st'"
    using Suc.IH by blast
  have IH6: "\<And>lev st. fits 4 n st \<Longrightarrow> \<exists>st'. expression n lev st = Some st'"
    using Suc.IH by blast
  have IH7: "\<And>lev st. fits 1 n st \<Longrightarrow> \<exists>st'. expression_loop n lev st = Some st'"
    using Suc.IH by blast
  have 1: "\<exists>st'. identifier_factor (Suc n) lev st = Some st'"
    if P: "0 < len st" and F: "fits 1 (Suc n) st" for lev st
  proof -
    let ?st2 = "snd (expect T_lparen True (next_token st))"
    have "fits 5 n ?st2"
      using P by (intro fits_cons [OF F]) (auto split: if_splits)
    from IH2 [OF this] obtain st3 where "args_loop n lev ?st2 = Some st3" by blast
    then show ?thesis
      by (auto simp: unpair split: option.splits SymKind.splits)
  qed
  have 2: "\<exists>st'. args_loop (Suc n) lev st = Some st'" if F: "fits 5 (Suc n) st" for lev st
  proof -
    have "fits 4 n st" by (rule fits_step [OF F]) simp_all
    from IH6 [OF this] obtain st1 where e: "expression n lev st = Some st1" by blast
    show ?thesis
    proof (cases "kind (current st1) = T_comma")
      case True
      have "len st1 \<le> len st" using expr_len(6) [OF e] .
      moreover have "0 < len st1" using True by (rule len_pos) simp
      ultimately have "fits 5 n (next_token st1)"
        by (intro fits_cons [OF F]) simp_all
      from IH2 [OF this] show ?thesis
        using True e by (auto simp: unpair accept_def)
    next
      case False
      then show ?thesis using e by (simp add: unpair accept_def)
    qed
  qed
  have 3: "\<exists>st'. factor (Suc n) lev st = Some st'" if F: "fits 2 (Suc n) st" for lev st
  proof (cases "kind (current st) = T_identifier")
    case True
    have "0 < len st" using True by (rule len_pos) simp
    moreover have "fits 1 n st" by (rule fits_step [OF F]) simp_all
    ultimately show ?thesis using IH1 True by simp
  next
    case False
    show ?thesis
    proof (cases "kind (current st) = T_lparen")
      case True
      have "0 < len st" using True by (rule len_pos) simp
      then have "fits 4 n (next_token st)"
        by (intro fits_cons [OF F]) simp_all
      from IH6 [OF this] obtain st2 where "expression n lev (next_token st) = Some st2" by blast
      then show ?thesis using True by (simp add: unpair accept_def)
    next
      case False
      then show ?thesis using \<open>kind (current st) \<noteq> T_identifier\<close>
        by (simp add: unpair accept_def)
    qed
  qed
  have 4: "\<exists>st'. terminal (Suc n) lev st = Some st'" if F: "fits 3 (Suc n) st" for lev st
  proof -
    have "fits 2 n st" by (rule fits_step [OF F]) simp_all
    from IH3 [OF this] obtain st1 where f: "factor n lev st = Some st1" by blast
    have "fits 1 n st1"
      using expr_len(3) [OF f] by (intro fits_step [OF F]) simp_all
    from IH5 [OF this] show ?thesis using f by simp
  qed
  have loop: "\<exists>st'. terminal_loop n lev (snd (emit opc 0 0 st1)) = Some st'"
    if F: "fits 1 (Suc n) st" and P: "0 < len st" and f: "factor n lev (next_token st) = Some st1"
    for lev st st1 opc
  proof -
    have "len st1 < len st" using expr_len(3) [OF f] P by simp
    then have "fits 1 n (snd (emit opc 0 0 st1))"
      by (intro fits_cons [OF F]) simp_all
    from IH5 [OF this] show ?thesis .
  qed
  have 5: "\<exists>st'. terminal_loop (Suc n) lev st = Some st'" if F: "fits 1 (Suc n) st" for lev st
  proof (cases "kind (current st) = T_mul \<or> kind (current st) = T_div")
    case True
    then have P: "0 < len st" by (auto intro: len_pos)
    then have "fits 2 n (next_token st)"
      by (intro fits_cons [OF F]) simp_all
    from IH3 [OF this] obtain st1 where f: "factor n lev (next_token st) = Some st1" by blast
    from loop [OF F P f] show ?thesis using True f by (auto simp: Let_def)
  next
    case False
    then show ?thesis by (simp add: Let_def)
  qed
  have 6: "\<exists>st'. expression (Suc n) lev st = Some st'" if F: "fits 4 (Suc n) st" for lev st
  proof -
    let ?st1 = "if kind (current st) = T_add \<or> kind (current st) = T_sub then next_token st else st"
    have "fits 3 n ?st1" by (rule fits_step [OF F]) simp_all
    from IH4 [OF this] obtain st2 where t: "terminal n lev ?st1 = Some st2" by blast
    have l: "len st2 \<le> len st" using expr_len(4) [OF t] by (simp split: if_splits)
    have "fits 1 n (if T_sub = kind (current st) then snd (emit cop_neg 0 0 st2) else st2)"
      using l by (intro fits_step [OF F]) simp_all
    from IH7 [OF this] show ?thesis using t by (simp add: Let_def)
  qed
  have eloop: "\<exists>st'. expression_loop n lev (snd (emit opc 0 0 st1)) = Some st'"
    if F: "fits 1 (Suc n) st" and P: "0 < len st" and f: "terminal n lev (next_token st) = Some st1"
    for lev st st1 opc
  proof -
    have "len st1 < len st" using expr_len(4) [OF f] P by simp
    then have "fits 1 n (snd (emit opc 0 0 st1))"
      by (intro fits_cons [OF F]) simp_all
    from IH7 [OF this] show ?thesis .
  qed
  have 7: "\<exists>st'. expression_loop (Suc n) lev st = Some st'" if F: "fits 1 (Suc n) st" for lev st
  proof (cases "kind (current st) = T_add \<or> kind (current st) = T_sub")
    case True
    then have P: "0 < len st" by (auto intro: len_pos)
    then have "fits 3 n (next_token st)"
      by (intro fits_cons [OF F]) simp_all
    from IH4 [OF this] obtain st1 where f: "terminal n lev (next_token st) = Some st1" by blast
    from eloop [OF F P f] show ?thesis using True f by (auto simp: Let_def)
  next
    case False
    then show ?thesis by (simp add: Let_def)
  qed
  show ?case using 1 2 3 4 5 6 7 by blast
qed

lemma expression_total: "fits 4 n st \<Longrightarrow> \<exists>st'. expression n lev st = Some st'"
  using expr_group_total by blast

lemma args_loop_total: "fits 5 n st \<Longrightarrow> \<exists>st'. args_loop n lev st = Some st'"
  using expr_group_total by blast


lemma terminal_total: "fits 3 n st \<Longrightarrow> \<exists>st'. terminal n lev st = Some st'"
  using expr_group_total by blast


lemma condition_total:
  assumes F: "fits 4 n st"
  shows "\<exists>st'. condition n lev st = Some st'"
proof -
  let ?st1 = "snd (accept T_odd True st)"
  have "fits 4 n ?st1" by (rule fits_same [OF F]) simp_all
  from expression_total [OF this] obtain st2 where e: "expression n lev ?st1 = Some st2" by blast
  have l: "len st2 \<le> len st" using expr_len(6) [OF e] by (simp split: if_splits)
  have "fits 4 n (next_token st2)" using l by (intro fits_same [OF F]) auto
  from expression_total [OF this] obtain st3 where "expression n lev (next_token st2) = Some st3"
    by blast
  then show ?thesis
    using e by (auto simp: condition_def unpair split: bool.splits)
qed

lemma assignStmt_total:
  assumes F: "fits 4 n st"
  shows "\<exists>st'. assignStmt n name val lev st = Some st'"
  using expression_total [OF F, of lev] by (auto simp: assignStmt_def)

lemma callStmt_total:
  assumes F: "fits 5 n st"
  shows "\<exists>st'. callStmt n name val lev st = Some st'"
  using args_loop_total [OF F, of lev] by (auto simp: callStmt_def unpair)

lemma identStmt_total:
  assumes F: "fits 5 n st"
  shows "\<exists>st'. identStmt n lev st = Some st'"
proof -
  have a: "fits 4 n (snd (accept T_assign True (next_token st)))"
    by (rule fits_same [OF F]) simp_all
  have c: "fits 5 n (snd (accept T_lparen True (snd (accept T_assign True (next_token st)))))"
    by (rule fits_same [OF F]) simp_all
  show ?thesis
    using assignStmt_total [OF a] callStmt_total [OF c]
    by (auto simp: identStmt_def unpair split: option.splits bool.splits)
qed

lemmas stmt_len =
  keeps_len [OF stmt_keeps(1) [OF _ keeps_refl]]
  keeps_len [OF stmt_keeps(2) [OF _ keeps_refl]]
  keeps_len [OF stmt_keeps(3) [OF _ keeps_refl]]
  keeps_len [OF stmt_keeps(4) [OF _ keeps_refl]]
  keeps_len [OF stmt_keeps(5) [OF _ keeps_refl]]

lemmas condition_len = keeps_len [OF condition_keeps [OF _ keeps_refl]]

lemma stmt_group_total:
  "(\<forall>lev st. fits 7 n st \<longrightarrow> (\<exists>st'. whileStmt n lev st = Some st')) \<and>
   (\<forall>lev st. fits 7 n st \<longrightarrow> (\<exists>st'. ifStmt n lev st = Some st')) \<and>
   (\<forall>lev st. fits 7 n st \<longrightarrow> (\<exists>st'. repeatStmt n lev st = Some st')) \<and>
   (\<forall>lev st. fits 6 n st \<longrightarrow> (\<exists>st'. statement n lev st = Some st')) \<and>
   (\<forall>lev st. fits 7 n st \<longrightarrow> (\<exists>st'. statement_loop n lev st = Some st'))"
proof (induction n)
  case 0
  show ?case by simp
next
  case (Suc n)
  have IH1: "\<And>lev st. fits 7 n st \<Longrightarrow> \<exists>st'. whileStmt n lev st = Some st'"
    using Suc.IH by blast
  have IH2: "\<And>lev st. fits 7 n st \<Longrightarrow> \<exists>st'. ifStmt n lev st = Some st'"
    using Suc.IH by blast
  have IH3: "\<And>lev st. fits 7 n st \<Longrightarrow> \<exists>st'. repeatStmt n lev st = Some st'"
    using Suc.IH by blast
  have IH4: "\<And>lev st. fits 6 n st \<Longrightarrow> \<exists>st'. statement n lev st = Some st'"
    using Suc.IH by blast
  have IH5: "\<And>lev st. fits 7 n st \<Longrightarrow> \<exists>st'. statement_loop n lev st = Some st'"
    using Suc.IH by blast
  have 1: "\<exists>st'. whileStmt (Suc n) lev st = Some st'" if F: "fits 7 (Suc n) st" for lev st
  proof -
    have "fits 4 n st" by (rule fits_step [OF F]) simp_all
    from condition_total [OF this] obtain st1 where c: "condition n lev st = Some st1" by blast
    let ?st3 = "snd (expect T_Do True (snd (emit cop_jneq 0 0 st1)))"
    have "fits 6 n ?st3"
      using condition_len [OF c] by (intro fits_step [OF F]) auto
    from IH4 [OF this] obtain st4 where "statement n lev ?st3 = Some st4" by blast
    then show ?thesis using c by (simp add: unpair)
  qed
  have 2: "\<exists>st'. ifStmt (Suc n) lev st = Some st'" if F: "fits 7 (Suc n) st" for lev st
  proof -
    have "fits 4 n st" by (rule fits_step [OF F]) simp_all
    from condition_total [OF this] obtain st1 where c: "condition n lev st = Some st1" by blast
    let ?st3 = "snd (expect T_then True (snd (emit cop_jneq 0 0 st1)))"
    have l3: "len ?st3 \<le> len st" using condition_len [OF c] by auto
    then have "fits 6 n ?st3" by (intro fits_step [OF F]) auto
    from IH4 [OF this] obtain st4 where s: "statement n lev ?st3 = Some st4" by blast
    have l4: "len st4 \<le> len st" using stmt_len(4) [OF s] l3 by linarith
    let ?st6 = "snd (emit cop_jump 0 0 (snd (accept T_Else True st4)))"
    let ?st7 = "patch (length (emitted st1)) (of_nat (length (emitted ?st6))) ?st6"
    have "fits 6 n ?st7" using l4 by (intro fits_step [OF F]) auto
    from IH4 [OF this] obtain st8 where "statement n lev ?st7 = Some st8" by blast
    then show ?thesis using c s by (auto simp: unpair split: bool.splits)
  qed
  have 3: "\<exists>st'. repeatStmt (Suc n) lev st = Some st'" if F: "fits 7 (Suc n) st" for lev st
  proof -
    have "fits 6 n st" by (rule fits_step [OF F]) simp_all
    from IH4 [OF this] obtain st1 where s: "statement n lev st = Some st1" by blast
    let ?st2 = "snd (expect T_until True st1)"
    have "fits 4 n ?st2" using stmt_len(4) [OF s] by (intro fits_step [OF F]) auto
    from condition_total [OF this] obtain st3 where "condition n lev ?st2 = Some st3" by blast
    then show ?thesis using s by (simp add: unpair)
  qed
  have 4: "\<exists>st'. statement (Suc n) lev st = Some st'" if F: "fits 6 (Suc n) st" for lev st
  proof -
    have i: "\<exists>st'. identStmt n lev st = Some st'"
      by (rule identStmt_total) (rule fits_step [OF F], simp_all)
    have b: "\<exists>st'. statement_loop n lev (next_token st) = Some st'" if "kind (current st) = T_begin"
      by (rule IH5) (rule fits_cons [OF F], insert len_pos [OF that], simp_all)
    have f: "\<exists>st'. ifStmt n lev (next_token st) = Some st'" if "kind (current st) = T_If"
      by (rule IH2) (rule fits_cons [OF F], insert len_pos [OF that], simp_all)
    have w: "\<exists>st'. whileStmt n lev (next_token st) = Some st'" if "kind (current st) = T_While"
      by (rule IH1) (rule fits_cons [OF F], insert len_pos [OF that], simp_all)
    have r: "\<exists>st'. repeatStmt n lev (next_token st) = Some st'" if "kind (current st) = T_repeat"
      by (rule IH3) (rule fits_cons [OF F], insert len_pos [OF that], simp_all)
    show ?thesis
      using i b f w r by (auto simp: unpair accept_def split: bool.splits)
  qed
  have 5: "\<exists>st'. statement_loop (Suc n) lev st = Some st'" if F: "fits 7 (Suc n) st" for lev st
  proof -
    have "fits 6 n st" by (rule fits_step [OF F]) simp_all
    from IH4 [OF this] obtain st1 where s: "statement n lev st = Some st1" by blast
    show ?thesis
    proof (cases "kind (current st1) = T_scomma")
      case True
      have "len st1 \<le> len st" using stmt_len(4) [OF s] .
      moreover have "0 < len st1" using True by (rule len_pos) simp
      ultimately have "fits 7 n (next_token st1)"
        by (intro fits_cons [OF F]) auto
      from IH5 [OF this] show ?thesis
        using True s by (auto simp: unpair accept_def)
    next
      case False
      then show ?thesis using s by (simp add: unpair accept_def)
    qed
  qed
  show ?case using 1 2 3 4 5 by blast
qed

lemma statement_total: "fits 6 n st \<Longrightarrow> \<exists>st'. statement n lev st = Some st'"
  using stmt_group_total by blast

lemma den_False [simp]: "den False L s st = extends s st"
  by (simp add: den_def)

lemma extends_constDecl: "extends s st \<Longrightarrow> extends s (constDecl lev st)"
  using den_constDecl [of False lev s st] by simp

lemma extends_varDecl: "extends s st \<Longrightarrow> extends s (snd (varDecl off lev st))"
  using den_varDecl [of False lev s st off] by simp

lemma constDecl_loop_total: "fits 1 n st \<Longrightarrow> \<exists>st'. constDecl_loop n lev st = Some st'"
proof (induction n arbitrary: st)
  case 0
  then show ?case by simp
next
  case (Suc n)
  let ?st1 = "constDecl lev st"
  have l: "len ?st1 \<le> len st" using extends_len [OF extends_constDecl [OF extends_refl]] .
  show ?case
  proof (cases "kind (current ?st1) = T_comma")
    case True
    have "0 < len ?st1" using True by (rule len_pos) simp
    with l have "fits 1 n (next_token ?st1)"
      by (intro fits_cons [OF Suc.prems]) auto
    from Suc.IH [OF this] show ?thesis using True by (simp add: unpair accept_def)
  next
    case False
    then show ?thesis by (simp add: unpair accept_def)
  qed
qed

lemma varDecl_loop_total: "fits 1 n st \<Longrightarrow> \<exists>r. varDecl_loop n dx lev st = Some r"
proof (induction n arbitrary: st dx)
  case 0
  then show ?case by simp
next
  case (Suc n)
  let ?st1 = "snd (varDecl dx lev st)"
  have l: "len ?st1 \<le> len st" using extends_len [OF extends_varDecl [OF extends_refl]] .
  show ?case
  proof (cases "kind (current ?st1) = T_comma")
    case True
    have "0 < len ?st1" using True by (rule len_pos) simp
    with l have "fits 1 n (next_token ?st1)"
      by (intro fits_cons [OF Suc.prems]) auto
    from Suc.IH [OF this] show ?thesis using True by (simp add: unpair accept_def)
  next
    case False
    then show ?thesis by (simp add: unpair accept_def)
  qed
qed

lemma formals_loop_total: "fits 1 n st \<Longrightarrow> \<exists>r. formals_loop n args st = Some r"
proof (induction n arbitrary: st args)
  case 0
  then show ?case by simp
next
  case (Suc n)
  let ?st1 = "snd (accept T_identifier True st)"
  show ?case
  proof (cases "kind (current ?st1) = T_comma")
    case True
    have "0 < len ?st1" using True by (rule len_pos) simp
    then have "fits 1 n (next_token ?st1)"
      by (intro fits_cons [OF Suc.prems]) (auto split: if_splits)
    from Suc.IH [OF this] show ?thesis using True by (simp add: unpair accept_def)
  next
    case False
    then show ?thesis by (simp add: unpair accept_def)
  qed
qed

lemma formals_total: "fits 1 n st \<Longrightarrow> \<exists>r. formals n lev st = Some r"
  using formals_loop_total [of n st "[]"] by (auto simp: formals_def unpair)

lemma constSection_total:
  assumes F: "fits 1 n st"
  shows "\<exists>st'. constSection n lev st = Some st'"
proof -
  have "fits 1 n (snd (accept T_constDecl True st))" by (rule fits_same [OF F]) auto
  from constDecl_loop_total [OF this, of lev] show ?thesis
    by (auto simp: constSection_def unpair split: bool.splits)
qed

lemma varSection_total:
  assumes F: "fits 1 n st"
  shows "\<exists>r. varSection n dx lev st = Some r"
proof -
  have "fits 1 n (snd (accept T_varDecl True st))" by (rule fits_same [OF F]) auto
  from varDecl_loop_total [OF this, of dx lev] show ?thesis
    by (auto simp: varSection_def unpair split: bool.splits)
qed

lemma extends_formals: "formals n lev st = Some r \<Longrightarrow> extends s st \<Longrightarrow> extends s (snd r)"
  using den_formals [of n lev st r False s] by simp

lemma extends_constSection: "constSection n lev st = Some st' \<Longrightarrow> extends s st \<Longrightarrow> extends s st'"
  using den_constSection [of n lev st st' False s] by simp

lemma extends_varSection: "varSection n dx lev st = Some r \<Longrightarrow> extends s st \<Longrightarrow> extends s (snd r)"
  using den_varSection [of n dx lev st r False s] by simp

lemma extends_subDecl: "subDecl n lev st = Some st' \<Longrightarrow> extends s st \<Longrightarrow> extends s st'"
  using block_group_den [of n] den_False by blast

lemma extends_subDecl_loop: "subDecl_loop n lev st = Some st' \<Longrightarrow> extends s st \<Longrightarrow> extends s st'"
  using block_group_den [of n] den_False by blast

lemma extends_block: "block n val lev nargs st = Some st' \<Longrightarrow> extends s st \<Longrightarrow> extends s st'"
  using block_group_den [of n] den_False by blast

lemma extends_declare_sub: "extends s st \<Longrightarrow> extends s (snd (declare_sub knd name lev st))"
  using den_declare_sub [of False lev s st knd name] by simp

text \<open>A subroutine declaration consumes its keyword.\<close>

lemma subDecl_consumes:
  assumes "subDecl n lev st = Some st'"
  shows "extends (next_token st) st'"
proof (cases n)
  case 0
  with assms show ?thesis by simp
next
  case (Suc m)
  show ?thesis
  proof (cases "kind (current (next_token st)) = T_identifier")
    case False
    with assms Suc have "st' = snd (expect T_identifier True (next_token st))"
      by (simp add: unpair split: bool.splits)
    then show ?thesis by (simp add: extends_expect)
  next
    case True
    define d where "d = declare_sub (kind (current st)) (string_value (current (next_token st))) lev
      (snd (expect T_identifier True (next_token st)))"
    from assms Suc True obtain r st7 where
      F: "formals m lev (snd (expect T_lparen True (snd d))) = Some r" and
      B: "block m (fst d) (lev + 1) (length (fst r)) (snd (expect T_rparen True (snd r))) = Some st7" and
      E: "st' = snd (expect T_scomma True st7)"
      by (auto simp: unpair d_def split: bool.splits bind_splits)
    have "extends (next_token st) (snd (expect T_lparen True (snd d)))"
      unfolding d_def by (intro extends_expect extends_declare_sub extends_refl)
    from extends_formals [OF F this]
    have "extends (next_token st) (snd (expect T_rparen True (snd r)))"
      by (rule extends_expect)
    from extends_block [OF B this] show ?thesis by (simp add: E extends_expect)
  qed
qed

lemma block_group_total:
  "(\<forall>lev st. 0 < len st \<longrightarrow> fits 1 n st \<longrightarrow> (\<exists>st'. subDecl n lev st = Some st')) \<and>
   (\<forall>lev st. fits 2 n st \<longrightarrow> (\<exists>st'. subDecl_loop n lev st = Some st')) \<and>
   (\<forall>val lev nargs st. fits 7 n st \<longrightarrow> (\<exists>st'. block n val lev nargs st = Some st'))"
proof (induction n)
  case 0
  show ?case by simp
next
  case (Suc n)
  have IH1: "\<And>lev st. 0 < len st \<Longrightarrow> fits 1 n st \<Longrightarrow> \<exists>st'. subDecl n lev st = Some st'"
    using Suc.IH by blast
  have IH2: "\<And>lev st. fits 2 n st \<Longrightarrow> \<exists>st'. subDecl_loop n lev st = Some st'"
    using Suc.IH by blast
  have IH3: "\<And>val lev nargs st. fits 7 n st \<Longrightarrow> \<exists>st'. block n val lev nargs st = Some st'"
    using Suc.IH by blast
  have 1: "\<exists>st'. subDecl (Suc n) lev st = Some st'"
    if P: "0 < len st" and F: "fits 1 (Suc n) st" for lev st
  proof -
    define d where "d = declare_sub (kind (current st)) (string_value (current (next_token st))) lev
      (snd (expect T_identifier True (next_token st)))"
    let ?st4 = "snd (expect T_lparen True (snd d))"
    have e4: "extends (next_token st) ?st4"
      unfolding d_def by (intro extends_expect extends_declare_sub extends_refl)
    have l4: "len ?st4 < len st"
      using extends_len [OF e4] P by simp
    then have "fits 1 n ?st4" by (intro fits_cons [OF F]) auto
    from formals_total [OF this] obtain r where f: "formals n lev ?st4 = Some r" by blast
    have "len (snd r) \<le> len ?st4" using extends_len [OF extends_formals [OF f extends_refl]] .
    with l4 have "fits 7 n (snd (expect T_rparen True (snd r)))"
      by (intro fits_cons [OF F]) auto
    from IH3 [OF this] obtain st7 where
      "block n (fst d) (lev + 1) (length (fst r)) (snd (expect T_rparen True (snd r))) = Some st7"
      by blast
    then show ?thesis
      using f by (auto simp: unpair d_def split: bool.splits)
  qed
  have 2: "\<exists>st'. subDecl_loop (Suc n) lev st = Some st'" if F: "fits 2 (Suc n) st" for lev st
  proof (cases "kind (current st) = T_procDecl \<or> kind (current st) = T_funcDecl")
    case True
    then have P: "0 < len st" by (auto intro: len_pos)
    have "fits 1 n st" by (rule fits_step [OF F]) auto
    from IH1 [OF P this] obtain st1 where s: "subDecl n lev st = Some st1" by blast
    have "len st1 \<le> len (next_token st)" using extends_len [OF subDecl_consumes [OF s]] .
    with P have "fits 2 n st1" by (intro fits_cons [OF F]) auto
    from IH2 [OF this] show ?thesis using True s by auto
  next
    case False
    then show ?thesis by simp
  qed
  have 3: "\<exists>st'. block (Suc n) val lev nargs st = Some st'" if F: "fits 7 (Suc n) st"
    for val lev nargs st
  proof -
    let ?st1 = "snd (emit cop_jump 0 0 st)"
    have "fits 1 n ?st1" by (rule fits_step [OF F]) auto
    from constSection_total [OF this] obtain st2 where c: "constSection n lev ?st1 = Some st2"
      by blast
    have l2: "len st2 \<le> len st"
      using extends_len [OF extends_constSection [OF c extends_refl]] by simp
    then have "fits 1 n st2" by (intro fits_step [OF F]) auto
    from varSection_total [OF this] obtain r where v: "varSection n Frame_size lev st2 = Some r"
      by blast
    have l3: "len (snd r) \<le> len st"
      using extends_len [OF extends_varSection [OF v extends_refl]] l2 by simp
    then have "fits 2 n (snd r)" by (intro fits_step [OF F]) auto
    from IH2 [OF this] obtain st4 where s: "subDecl_loop n lev (snd r) = Some st4" by blast
    have l4: "len st4 \<le> len st"
      using extends_len [OF extends_subDecl_loop [OF s extends_refl]] l3 by simp
    let ?st6 = "set_value (fst val) (of_nat (length (emitted st4)))
            (patch (length (emitted st)) (of_nat (length (emitted st4)))
              (snd (emit cop_enter 0 (fst r) st4)))"
    have "len ?st6 = len st4" by (simp add: len_def set_value_def patch_def emit_def)
    with l4 have "fits 6 n ?st6" by (intro fits_step [OF F]) auto
    from statement_total [OF this] obtain st7 where "statement n lev ?st6 = Some st7" by blast
    then show ?thesis using c v s by (auto simp: unpair)
  qed
  show ?case using 1 2 3 by blast
qed

lemma block_total: "fits 7 n st \<Longrightarrow> \<exists>st'. block n val lev nargs st = Some st'"
  using block_group_total by blast

lemma subDecl_total: "0 < len st \<Longrightarrow> fits 1 n st \<Longrightarrow> \<exists>st'. subDecl n lev st = Some st'"
  using block_group_total by blast

lemma keeps_emitted: "keeps s st \<Longrightarrow> \<exists>c. emitted st = emitted s @ c"
  by (auto simp: keeps_def extends_def prefix_def)

lemma extends_emitted: "extends s st \<Longrightarrow> \<exists>c. emitted st = emitted s @ c"
  by (auto simp: extends_def prefix_def)

lemma emitted_emit [simp]:
  "emitted (snd (emit opc l a st)) = emitted st @ [\<lparr>addr = a, op = opc, level = l\<rparr>]"
  by (simp add: emit_def)

lemma emitted_next_token [simp]: "emitted (next_token st) = emitted st"
  by (simp add: next_token_def)

lemma symtbl_next_token [simp]: "symtbl (next_token st) = symtbl st"
  by (simp add: next_token_def)

lemma fits_ts: "fits r n st \<longleftrightarrow> 8 * length (ts st) + r \<le> n"
  by (simp add: fits_def len_def)

lemmas expression_emitted = keeps_emitted [OF expr_keeps(6) [OF _ keeps_refl]]

text \<open>
  Claim C1, amended. A variable read compiled as a factor in a block at level \<open>L\<close>, the
  closest entry of the name being a variable declared at level \<open>L'\<close> with offset \<open>off\<close>,
  emits the single instruction \<^verbatim>\<open>pushVar (L-L') off\<close>: no \<^verbatim>\<open>Eval\<close> follows, the compiler's
  instruction set has none. An assignment statement to such a variable emits the code of
  the right-hand side and then the single instruction \<^verbatim>\<open>pop (L-L') off\<close>, given fuel for the
  remaining input.
\<close>

theorem variable_read_and_assignment:
  assumes "lookup (string_value (current st)) (symtbl st) = Some (r, nm, v)"
    and "skind v = sym_identifier"
    and "kind (current st) = T_identifier"
  shows "(\<exists>st'. factor (Suc (Suc n)) lev st = Some st' \<and>
            emitted st' = emitted st @
              [\<lparr>addr = svalue v, op = cop_pushVar, level = word_of_int (lev - slevel v)\<rparr>]) \<and>
         (kind (current (next_token st)) = T_assign \<longrightarrow> 8 * length (ts st) + 4 \<le> n \<longrightarrow>
            (\<exists>st1 rhs st'. expression n lev (next_token (next_token st)) = Some st1 \<and>
               emitted st1 = emitted st @ rhs \<and>
               identStmt n lev st = Some st' \<and>
               emitted st' = emitted st @ rhs @
                 [\<lparr>addr = svalue v, op = cop_pop, level = word_of_int (lev - slevel v)\<rparr>]))"
proof (intro conjI impI)
  show "\<exists>st'. factor (Suc (Suc n)) lev st = Some st' \<and>
            emitted st' = emitted st @
              [\<lparr>addr = svalue v, op = cop_pushVar, level = word_of_int (lev - slevel v)\<rparr>]"
    using assms by (simp add: unpair)
next
  assume a: "kind (current (next_token st)) = T_assign" and f: "8 * length (ts st) + 4 \<le> n"
  let ?st2 = "next_token (next_token st)"
  have F0: "fits 4 n st" using f by (simp add: fits_ts)
  have "fits 4 n ?st2" by (rule fits_same [OF F0]) auto
  from expression_total [OF this] obtain st1 where e: "expression n lev ?st2 = Some st1" by blast
  from expression_emitted [OF e] obtain rhs where rhs: "emitted st1 = emitted st @ rhs" by auto
  have "identStmt n lev st = Some (snd (emit cop_pop (word_of_int (lev - slevel v)) (svalue v) st1))"
    using assms a e by (simp add: identStmt_def assignStmt_def unpair accept_def)
  then show "\<exists>st1 rhs st'. expression n lev ?st2 = Some st1 \<and>
               emitted st1 = emitted st @ rhs \<and>
               identStmt n lev st = Some st' \<and>
               emitted st' = emitted st @ rhs @
                 [\<lparr>addr = svalue v, op = cop_pop, level = word_of_int (lev - slevel v)\<rparr>]"
    using e rhs by simp
qed

text \<open>
  Claim C5, amended. For a condition \<^verbatim>\<open>odd expr\<close> the compiler emits the code of the
  expression and then the single instruction \<^verbatim>\<open>odd\<close>, an operation code of its own in the
  compiler's instruction set, given fuel for the remaining input.
\<close>

theorem odd_condition:
  assumes "kind (current st) = T_odd" and "8 * length (ts st) + 4 \<le> n"
  shows "\<exists>st1 e st'. expression n lev (next_token st) = Some st1 \<and>
           emitted st1 = emitted st @ e \<and>
           condition n lev st = Some st' \<and>
           emitted st' = emitted st @ e @ [\<lparr>addr = 0, op = cop_odd, level = 0\<rparr>]"
proof -
  have F0: "fits 4 n st" using assms(2) by (simp add: fits_ts)
  have "fits 4 n (next_token st)" by (rule fits_same [OF F0]) auto
  from expression_total [OF this] obtain st1 where e: "expression n lev (next_token st) = Some st1"
    by blast
  from expression_emitted [OF e] obtain c where c: "emitted st1 = emitted st @ c" by auto
  have "condition n lev st = Some (snd (emit cop_odd 0 0 st1))"
    using assms(1) e by (simp add: condition_def unpair accept_def)
  then show ?thesis using e c by simp
qed


subsection \<open>Lookup\<close>




lemma set_equal_range: "set (equal_range name tbl) = {e \<in> set tbl. fst (snd e) = name}"
  by (auto simp: equal_range_def)


lemma lookup_None: "lookup name tbl = None \<longleftrightarrow> (\<forall>e \<in> set tbl. fst (snd e) \<noteq> name)"
proof -
  have "lookup name tbl = None \<longleftrightarrow> equal_range name tbl = []"
    by (simp add: lookup_def split: list.splits)
  also have "\<dots> \<longleftrightarrow> set (equal_range name tbl) = {}" by simp
  also have "\<dots> \<longleftrightarrow> (\<forall>e \<in> set tbl. fst (snd e) \<noteq> name)"
    unfolding set_equal_range by blast
  finally show ?thesis .
qed






lemma expression_symtbl: "expression n lev st = Some st' \<Longrightarrow> symtbl st' = symtbl st"
  using expr_keeps(6) [OF _ keeps_refl] by (simp add: keeps_def)

subsection \<open>Redefinition\<close>

lemma defined_at_same_level: "defined_at name lev tbl \<longleftrightarrow> same_level name lev tbl \<noteq> []"
  by (auto simp: defined_at_def same_level_def list_ex_iff filter_empty_conv)

lemma redefinitions_diags:
  "diags (redefinitions name lev rng st) =
     diags st @ replicate (length (filter (\<lambda>e. slevel (snd (snd e)) = lev) rng)) (PreviouslyDefined name) \<and>
   nErrors (redefinitions name lev rng st) =
     nErrors st + length (filter (\<lambda>e. slevel (snd (snd e)) = lev) rng) \<and>
   symtbl (redefinitions name lev rng st) = symtbl st \<and>
   ts (redefinitions name lev rng st) = ts st"
proof (induction rng arbitrary: st)
  case Nil
  show ?case by simp
next
  case (Cons e rng)
  show ?case
    using Cons.IH [of "error (PreviouslyDefined name) st"] Cons.IH [of st]
    by (auto simp: error_def replicate_append_same)
qed

lemma declare_sub_diags:
  "diags (snd (declare_sub knd name lev st)) =
     diags st @ replicate (length (same_level name lev (symtbl st))) (PreviouslyDefined name) \<and>
   nErrors (snd (declare_sub knd name lev st)) =
     nErrors st + length (same_level name lev (symtbl st))"
  using redefinitions_diags [of name lev "equal_range name (symtbl st)" st]
  by (simp add: declare_sub_def unpair insert_sym_def same_level_def)

lemma extends_diags:
  "extends s st \<Longrightarrow> \<exists>ds. diags st = diags s @ ds \<and> nErrors st = nErrors s + length ds"
  by (auto simp: extends_def prefix_def)

lemma subDecl_redefinition:
  assumes i: "kind (current (next_token st)) = T_identifier"
    and d: "defined_at (string_value (current (next_token st))) lev (symtbl st)"
    and f: "8 * length (ts st) + 1 \<le> n"
  shows "\<exists>st' k rest. subDecl n lev st = Some st' \<and> 0 < k \<and>
           diags st' = diags st @
             replicate k (PreviouslyDefined (string_value (current (next_token st)))) @ rest \<and>
           nErrors st' = nErrors st + k + length rest"
proof -
  define name where "name = string_value (current (next_token st))"
  have P1: "0 < len (next_token st)" using i by (rule len_pos) simp
  then have P: "0 < len st" by simp
  have F: "fits 1 n st" using f by (simp add: fits_ts)
  from subDecl_total [OF P F] obtain st' where s: "subDecl n lev st = Some st'" by blast
  from s obtain m where n: "n = Suc m" by (cases n) auto
  define st2 where "st2 = snd (expect T_identifier True (next_token st))"
  define d where "d = declare_sub (kind (current st)) name lev st2"
  have st2: "st2 = next_token (next_token st)"
    using i by (simp add: st2_def expect_def accept_def)
  from s n i obtain r st7 where
    F: "formals m lev (snd (expect T_lparen True (snd d))) = Some r" and
    B: "block m (fst d) (lev + 1) (length (fst r)) (snd (expect T_rparen True (snd r))) = Some st7" and
    E: "st' = snd (expect T_scomma True st7)"
    by (auto simp: unpair d_def st2_def name_def split: bool.splits bind_splits)
  have "extends (snd d) (snd (expect T_lparen True (snd d)))"
    by (intro extends_expect extends_refl)
  from extends_formals [OF F this]
  have "extends (snd d) (snd (expect T_rparen True (snd r)))"
    by (rule extends_expect)
  from extends_block [OF B this] have "extends (snd d) st'"
    by (simp add: E extends_expect)
  from extends_diags [OF this] obtain rest where
    rest: "diags st' = diags (snd d) @ rest" "nErrors st' = nErrors (snd d) + length rest"
    by blast
  let ?k = "length (same_level name lev (symtbl st))"
  have k: "0 < ?k" using d by (simp add: defined_at_same_level name_def)
  have "diags (snd d) = diags st @ replicate ?k (PreviouslyDefined name)"
    and "nErrors (snd d) = nErrors st + ?k"
    using declare_sub_diags [of "kind (current st)" name lev st2]
    by (simp_all add: d_def st2 next_token_def)
  with rest k s show ?thesis
    unfolding name_def [symmetric] by auto
qed

subsection \<open>The block prologue\<close>

lemma consecutive_append:
  "consecutive dx lev (a @ b) \<longleftrightarrow>
     consecutive dx lev a \<and> consecutive (dx + of_nat (length a)) lev b"
  by (induction a arbitrary: dx) (auto simp: algebra_simps)

lemma varDecl_new:
  "\<exists>new. symtbl (snd (varDecl dx lev st)) = symtbl st @ new \<and>
     fst (varDecl dx lev st) = dx + of_nat (length new) \<and>
     consecutive dx lev (map (\<lambda>e. snd (snd e)) new)"
proof (cases "kind (current st) = T_identifier \<and> \<not> defined_at (string_value (current st)) lev (symtbl st)")
  case True
  then show ?thesis
    by (auto simp: varDecl_def unpair expect_def accept_def insert_sym_def next_token_def)
next
  case False
  then have "symtbl (snd (varDecl dx lev st)) = symtbl st @ [] \<and>
     fst (varDecl dx lev st) = dx + of_nat (length ([] :: SymEntry list))"
    by (auto simp: varDecl_def unpair expect_def accept_def error_def next_token_def)
  then show ?thesis by (intro exI [of _ "[]"]) simp
qed

lemma varDecl_loop_new:
  "varDecl_loop n dx lev st = Some r \<Longrightarrow>
   \<exists>new. symtbl (snd r) = symtbl st @ new \<and> fst r = dx + of_nat (length new) \<and>
     consecutive dx lev (map (\<lambda>e. snd (snd e)) new)"
proof (induction n arbitrary: dx st)
  case 0
  then show ?case by simp
next
  case (Suc n)
  obtain new1 where n1: "symtbl (snd (varDecl dx lev st)) = symtbl st @ new1"
    "fst (varDecl dx lev st) = dx + of_nat (length new1)"
    "consecutive dx lev (map (\<lambda>e. snd (snd e)) new1)"
    using varDecl_new [of dx lev st] by blast
  show ?case
  proof (cases "kind (current (snd (varDecl dx lev st))) = T_comma")
    case False
    with Suc.prems have "r = varDecl dx lev st"
      by (simp add: unpair accept_def)
    with n1 show ?thesis by blast
  next
    case True
    with Suc.prems have
      "varDecl_loop n (fst (varDecl dx lev st)) lev (next_token (snd (varDecl dx lev st))) = Some r"
      by (simp add: unpair accept_def)
    from Suc.IH [OF this] obtain new2 where
      n2: "symtbl (snd r) = symtbl (snd (varDecl dx lev st)) @ new2"
      "fst r = fst (varDecl dx lev st) + of_nat (length new2)"
      "consecutive (fst (varDecl dx lev st)) lev (map (\<lambda>e. snd (snd e)) new2)"
      by auto
    show ?thesis
      using n1 n2 by (intro exI [of _ "new1 @ new2"]) (simp add: consecutive_append)
  qed
qed

lemma varSection_new:
  assumes "varSection n dx lev st = Some r"
  shows "\<exists>new. symtbl (snd r) = symtbl st @ new \<and> fst r = dx + of_nat (length new) \<and>
     consecutive dx lev (map (\<lambda>e. snd (snd e)) new)"
proof (cases "kind (current st) = T_varDecl")
  case True
  with assms obtain x where x: "varDecl_loop n dx lev (next_token st) = Some x"
    and r: "r = (fst x, snd (expect T_scomma True (snd x)))"
    by (auto simp: varSection_def unpair accept_def split: bind_splits)
  have "symtbl (snd (expect T_scomma True (snd x))) = symtbl (snd x)"
    by (simp add: expect_def accept_def error_def next_token_def)
  with varDecl_loop_new [OF x] show ?thesis by (simp add: r)
next
  case False
  with assms have "r = (dx, st)" by (simp add: varSection_def unpair accept_def)
  then show ?thesis by (intro exI [of _ "[]"]) simp
qed

lemma block_enter:
  assumes f: "8 * length (ts st) + 7 \<le> Suc n"
  shows "\<exists>st2 r new entry st'.
    constSection n lev (snd (emit cop_jump 0 0 st)) = Some st2 \<and>
    varSection n Frame_size lev st2 = Some r \<and>
    symtbl (snd r) = symtbl st2 @ new \<and> fst r = 4 + of_nat (length new) \<and>
    consecutive 4 lev (map (\<lambda>e. snd (snd e)) new) \<and>
    block (Suc n) val lev nargs st = Some st' \<and>
    length (emitted st) < entry \<and> entry < length (emitted st') \<and>
    emitted st' ! entry = \<lparr>addr = fst r, op = cop_enter, level = 0\<rparr> \<and>
    emitted st' ! length (emitted st) = \<lparr>addr = of_nat entry, op = cop_jump, level = 0\<rparr>"
proof -
  have F: "fits 7 (Suc n) st" using f by (simp add: fits_ts)
  from block_total [OF F] obtain st' where b: "block (Suc n) val lev nargs st = Some st'" by blast
  let ?st1 = "snd (emit cop_jump 0 0 st)"
  from b obtain st2 r st4 st7 where
    C: "constSection n lev ?st1 = Some st2" and
    V: "varSection n Frame_size lev st2 = Some r" and
    L: "subDecl_loop n lev (snd r) = Some st4" and
    S: "statement n lev (set_value (fst val) (of_nat (length (emitted st4)))
          (patch (length (emitted st)) (of_nat (length (emitted st4)))
            (snd (emit cop_enter 0 (fst r) st4)))) = Some st7" and
    E: "st' = purge lev (if sym_function = snd val then snd (emit cop_reti 0 (of_nat nargs) st7)
              else snd (emit cop_ret 0 (of_nat nargs) st7))"
    by (auto simp: unpair split: bind_splits)
  let ?entry = "length (emitted st4)"
  let ?st6 = "set_value (fst val) (of_nat ?entry)
          (patch (length (emitted st)) (of_nat ?entry) (snd (emit cop_enter 0 (fst r) st4)))"
  have "extends ?st1 st4"
    by (intro extends_subDecl_loop [OF L] extends_varSection [OF V] extends_constSection [OF C]
        extends_refl)
  from extends_emitted [OF this] obtain c4 where
    c4: "emitted st4 = emitted st @ [\<lparr>addr = 0, op = cop_jump, level = 0\<rparr>] @ c4"
    by auto
  have e6: "emitted ?st6 = emitted st @ [\<lparr>addr = of_nat ?entry, op = cop_jump, level = 0\<rparr>] @ c4 @
      [\<lparr>addr = fst r, op = cop_enter, level = 0\<rparr>]"
    by (simp add: set_value_def patch_def c4 list_update_append nth_append)
  from keeps_emitted [OF stmt_keeps(4) [OF S keeps_refl]] obtain c7 where
    c7: "emitted st7 = emitted ?st6 @ c7" by blast
  have "\<exists>c8. emitted st' = emitted ?st6 @ c8"
    by (cases "sym_function = snd val") (simp_all add: E purge_def c7)
  then obtain c8 where e': "emitted st' = emitted ?st6 @ c8" by blast
  have len4: "?entry = length (emitted st) + 1 + length c4" by (simp add: c4)
  have 1: "emitted st' ! ?entry = \<lparr>addr = fst r, op = cop_enter, level = 0\<rparr>"
    unfolding e' e6 by (simp add: nth_append len4)
  have 2: "emitted st' ! length (emitted st) = \<lparr>addr = of_nat ?entry, op = cop_jump, level = 0\<rparr>"
    unfolding e' e6 by (simp add: nth_append)
  have 3: "?entry < length (emitted st')"
    unfolding e' e6 by (simp add: len4)
  from varSection_new [OF V] obtain new where
    new: "symtbl (snd r) = symtbl st2 @ new" "fst r = Frame_size + of_nat (length new)"
      "consecutive Frame_size lev (map (\<lambda>e. snd (snd e)) new)" by blast
  show ?thesis
    using C V new b 1 2 3 len4
    by (intro exI [of _ st2] exI [of _ r] exI [of _ new] exI [of _ ?entry] exI [of _ st'])
      (simp add: Frame_size_def)
qed

lemmas comp_defs = compile_def run_comp_def set_input_def PL0CComp_def current_def next_token_def
  accept_def expect_def emit_def patch_def error_def equal_range_def lookup_def insert_sym_def
  set_value_def purge_def condition_def assignStmt_def callStmt_def identStmt_def
  constDecl_def varDecl_def defined_at_def Frame_size_def rValue_def tok_def ident_def num_def
  declare_sub_def formals_def constSection_def varSection_def Let_def

text \<open>
  Claim C1, as stated, fails: for \<^verbatim>\<open>var x; x = x .\<close> the read of \<open>x\<close> is the one
  instruction \<^verbatim>\<open>pushVar 0 4\<close> and the assignment the one instruction \<^verbatim>\<open>pop 0 4\<close>.
\<close>

theorem read_and_assignment_code:
  "map_option emitted (compile 12 src_assign) = Some
     [\<lparr>addr = 1, op = cop_jump, level = 0\<rparr>, \<lparr>addr = 5, op = cop_enter, level = 0\<rparr>,
      \<lparr>addr = 4, op = cop_pushVar, level = 0\<rparr>, \<lparr>addr = 4, op = cop_pop, level = 0\<rparr>,
      \<lparr>addr = 0, op = cop_ret, level = 0\<rparr>]"
  by (simp add: src_assign_def comp_defs numeral_eq_Suc)

text \<open>
  Claim C5, as stated, fails: for \<^verbatim>\<open>if odd 3 then .\<close> the condition is compiled to
  \<^verbatim>\<open>pushConst 3\<close> followed by \<^verbatim>\<open>odd\<close>.
\<close>

theorem odd_condition_code:
  "map_option emitted (compile 12 src_odd) = Some
     [\<lparr>addr = 1, op = cop_jump, level = 0\<rparr>, \<lparr>addr = 4, op = cop_enter, level = 0\<rparr>,
      \<lparr>addr = 3, op = cop_pushConst, level = 0\<rparr>, \<lparr>addr = 0, op = cop_odd, level = 0\<rparr>,
      \<lparr>addr = 5, op = cop_jneq, level = 0\<rparr>, \<lparr>addr = 0, op = cop_ret, level = 0\<rparr>]"
  by (simp add: src_odd_def comp_defs numeral_eq_Suc)


lemma body_state_sel [simp]:
  "ts (body_state i) = i" "nErrors (body_state i) = 0" "diags (body_state i) = []"
  "symtbl (body_state i) = [(0, ''main'', \<lparr>skind = sym_proc, slevel = 0, svalue = 1\<rparr>),
               (1, ''x'', \<lparr>skind = sym_identifier, slevel = 0, svalue = 4\<rparr>)]"
  "emitted (body_state i) = [\<lparr>addr = 1, op = cop_jump, level = 0\<rparr>, \<lparr>addr = 5, op = cop_enter, level = 0\<rparr>]"
  by (simp_all add: body_state_def)

lemma current_body_state [simp]: "current (body_state (t # i)) = t"
  by (simp add: current_def)

lemma next_token_body_state [simp]: "next_token (body_state (t # i)) = body_state i"
  by (simp add: next_token_def body_state_def)

lemma lookup_x: "lookup ''x'' (symtbl (body_state i)) =
    Some (1, ''x'', \<lparr>skind = sym_identifier, slevel = 0, svalue = 4\<rparr>)"
  by (simp add: lookup_def equal_range_def)

theorem variable_read_and_assignment_witness:
  "lookup (string_value (current (body_state [ident ''x'', tok T_assign, ident ''x''])))
     (symtbl (body_state [ident ''x'', tok T_assign, ident ''x''])) =
       Some (1, ''x'', \<lparr>skind = sym_identifier, slevel = 0, svalue = 4\<rparr>) \<and>
   kind (current (body_state [ident ''x'', tok T_assign, ident ''x''])) = T_identifier \<and>
   kind (current (next_token (body_state [ident ''x'', tok T_assign, ident ''x'']))) = T_assign \<and>
   8 * length (ts (body_state [ident ''x'', tok T_assign, ident ''x''])) + 4 \<le> (28 :: nat) \<and>
   (\<exists>st'. factor (Suc (Suc 28)) 0 (body_state [ident ''x'', tok T_assign, ident ''x'']) = Some st' \<and>
      emitted st' = emitted (body_state [ident ''x'', tok T_assign, ident ''x'']) @
        [\<lparr>addr = 4, op = cop_pushVar, level = 0\<rparr>]) \<and>
   (\<exists>st1 rhs st'. expression 28 0 (body_state [ident ''x'']) = Some st1 \<and>
      emitted st1 = emitted (body_state [ident ''x'', tok T_assign, ident ''x'']) @ rhs \<and>
      identStmt 28 0 (body_state [ident ''x'', tok T_assign, ident ''x'']) = Some st' \<and>
      emitted st' = emitted (body_state [ident ''x'', tok T_assign, ident ''x'']) @ rhs @
        [\<lparr>addr = 4, op = cop_pop, level = 0\<rparr>])"
proof -
  let ?st = "body_state [ident ''x'', tok T_assign, ident ''x'']"
  have l: "lookup (string_value (current ?st)) (symtbl ?st) =
      Some (1, ''x'', \<lparr>skind = sym_identifier, slevel = 0, svalue = 4\<rparr>)"
    using lookup_x [of "[ident ''x'', tok T_assign, ident ''x'']"] by (simp add: ident_def)
  have k: "kind (current ?st) = T_identifier" by (simp add: ident_def)
  have a: "kind (current (next_token ?st)) = T_assign" by (simp add: tok_def)
  have f: "8 * length (ts ?st) + 4 \<le> (28 :: nat)" by simp
  from variable_read_and_assignment [OF l _ k, of 28 0] a f l k show ?thesis
    by simp
qed

theorem odd_condition_witness:
  "kind (current (body_state [tok T_odd, num 3, tok T_then])) = T_odd \<and>
   8 * length (ts (body_state [tok T_odd, num 3, tok T_then])) + 4 \<le> (28 :: nat) \<and>
   (\<exists>st1 e st'. expression 28 0 (body_state [num 3, tok T_then]) = Some st1 \<and>
      emitted st1 = emitted (body_state [tok T_odd, num 3, tok T_then]) @ e \<and>
      condition 28 0 (body_state [tok T_odd, num 3, tok T_then]) = Some st' \<and>
      emitted st' = emitted (body_state [tok T_odd, num 3, tok T_then]) @ e @
        [\<lparr>addr = 0, op = cop_odd, level = 0\<rparr>])"
proof -
  let ?st = "body_state [tok T_odd, num 3, tok T_then]"
  have k: "kind (current ?st) = T_odd" by (simp add: tok_def)
  have f: "8 * length (ts ?st) + 4 \<le> (28 :: nat)" by simp
  from odd_condition [OF k f, of 0] k f show ?thesis by simp
qed







subsection \<open>Redefinitions\<close>

text \<open>
  The declarations that test for an earlier definition. A variable declaration, a constant
  declaration and a subroutine declaration whose identifier has an entry at the same level
  report the diagnostic of an earlier definition and increment the error count: once for a
  variable or a constant, which is then not entered, and once for every such entry for the
  name of a subroutine. \<^verbatim>\<open>error\<close> writes the diagnostic and adds one to the count.
\<close>

lemma redefinition_reported:
  "(kind (current st1) = T_identifier \<longrightarrow>
      defined_at (string_value (current st1)) lev1 (symtbl st1) \<longrightarrow>
      varDecl offset lev1 st1 =
        (offset, error (PreviouslyDefined (string_value (current st1))) (next_token st1))) \<and>
   (kind (current st2) = T_identifier \<longrightarrow> kind (current (next_token st2)) = T_assign \<longrightarrow>
      kind (current (next_token (next_token st2))) = T_number \<longrightarrow>
      defined_at (string_value (current st2)) lev2 (symtbl st2) \<longrightarrow>
      constDecl lev2 st2 =
        error (PreviouslyDefined (string_value (current st2)))
          (next_token (next_token (next_token st2)))) \<and>
   (kind (current (next_token st3)) = T_identifier \<longrightarrow>
      defined_at (string_value (current (next_token st3))) lev3 (symtbl st3) \<longrightarrow>
      8 * length (ts st3) + 1 \<le> n \<longrightarrow>
      (\<exists>st' k rest. subDecl n lev3 st3 = Some st' \<and> 0 < k \<and>
         diags st' = diags st3 @
           replicate k (PreviouslyDefined (string_value (current (next_token st3)))) @ rest \<and>
         nErrors st' = nErrors st3 + k + length rest)) \<and>
   nErrors (error d st) = nErrors st + 1 \<and> diags (error d st) = diags st @ [d]"
proof -
  have v: "varDecl offset lev1 st1 =
        (offset, error (PreviouslyDefined (string_value (current st1))) (next_token st1))"
    if "kind (current st1) = T_identifier" "defined_at (string_value (current st1)) lev1 (symtbl st1)"
    using that by (simp add: varDecl_def unpair expect_def accept_def)
  have c: "constDecl lev2 st2 =
        error (PreviouslyDefined (string_value (current st2)))
          (next_token (next_token (next_token st2)))"
    if "kind (current st2) = T_identifier" "kind (current (next_token st2)) = T_assign"
      "kind (current (next_token (next_token st2))) = T_number"
      "defined_at (string_value (current st2)) lev2 (symtbl st2)"
    using that by (simp add: constDecl_def unpair expect_def accept_def)
  show ?thesis
    using v c subDecl_redefinition [of st3 lev3 n]
    by (simp add: error_def)
qed

lemma redefinition_reported_witness:
  "kind (current (body_state [ident ''x''])) = T_identifier \<and>
   defined_at ''x'' 0 (symtbl (body_state [ident ''x''])) \<and>
   varDecl 5 0 (body_state [ident ''x'']) = (5, error (PreviouslyDefined ''x'') (body_state [])) \<and>
   kind (current (body_state [ident ''x'', tok T_assign, num 5])) = T_identifier \<and>
   kind (current (body_state [tok T_assign, num 5])) = T_assign \<and>
   kind (current (body_state [num 5])) = T_number \<and>
   constDecl 0 (body_state [ident ''x'', tok T_assign, num 5]) =
     error (PreviouslyDefined ''x'') (body_state []) \<and>
   kind (current (body_state [ident ''x'', tok T_lparen, tok T_rparen, tok T_scomma])) = T_identifier \<and>
   8 * length (ts (body_state [tok T_procDecl, ident ''x'', tok T_lparen, tok T_rparen, tok T_scomma])) + 1
     \<le> (41 :: nat) \<and>
   (\<exists>st' k rest.
      subDecl 41 0 (body_state [tok T_procDecl, ident ''x'', tok T_lparen, tok T_rparen, tok T_scomma])
        = Some st' \<and> 0 < k \<and>
      diags st' = replicate k (PreviouslyDefined ''x'') @ rest \<and>
      nErrors st' = k + length rest)"
proof -
  have d: "defined_at ''x'' 0 (symtbl (body_state i))" for i
    by (simp add: defined_at_def equal_range_def)
  from redefinition_reported [of "body_state [ident ''x'']" 0 5
      "body_state [ident ''x'', tok T_assign, num 5]" 0
      "body_state [tok T_procDecl, ident ''x'', tok T_lparen, tok T_rparen, tok T_scomma]" 0 41]
  show ?thesis
    using d by (simp add: ident_def tok_def num_def)
qed

text \<open>
  Claim C9 fails for the formal arguments of a subroutine header. They are variables of the
  level of the subroutine's block, and \<^verbatim>\<open>subDecl\<close> enters them without the test that
  \<^verbatim>\<open>varDecl\<close>, \<^verbatim>\<open>constDecl\<close> and \<^verbatim>\<open>subDecl\<close> itself, for the name of the subroutine,
  make. For \<^verbatim>\<open>procedure p(a, a); .\<close> the header is reached in the state \<open>dup_header\<close>, the
  loop records \<open>a\<close> twice, the second \<open>a\<close> is entered while the first is in the table at
  level 1, both entries are in the table when the block starts, and the compilation ends
  with no diagnostic and an error count of 0. The same name declared once as a formal
  argument and once by \<^verbatim>\<open>var\<close>, in \<^verbatim>\<open>procedure p(a) var a; ; .\<close>, is reported by
  \<^verbatim>\<open>varDecl\<close>.
\<close>

theorem duplicate_formal_unreported:
  "declare_sub T_procDecl ''p'' 0 (snd (emit cop_jump 0 0 (PL0CComp\<lparr>ts := drop 2 src_dup\<rparr>)))
     = ((1, sym_proc), dup_header (drop 2 src_dup)) \<and>
   formals_loop 2 [] (dup_header (drop 3 src_dup)) = Some ([''a'', ''a''], dup_header (drop 6 src_dup)) \<and>
   defined_at ''a'' 1
     (symtbl (snd (insert_sym ''a'' \<lparr>skind = sym_identifier, slevel = 1, svalue = - 2\<rparr>
        (dup_header (drop 6 src_dup))))) \<and>
   formals 3 0 (dup_header (drop 3 src_dup)) = Some ([''a'', ''a''],
     (dup_header (drop 6 src_dup))\<lparr>
        symtbl := symtbl (dup_header []) @
          [(2, ''a'', \<lparr>skind = sym_identifier, slevel = 1, svalue = - 2\<rparr>),
           (3, ''a'', \<lparr>skind = sym_identifier, slevel = 1, svalue = - 1\<rparr>)],
        fresh := 4\<rparr>) \<and>
   map_option (\<lambda>st. (nErrors st, diags st)) (compile 90 src_dup) = Some (0, []) \<and>
   map_option (\<lambda>st. (nErrors st, diags st)) (compile 90 src_formal_var) =
     Some (1, [PreviouslyDefined ''a''])"
  by (simp add: src_dup_def src_formal_var_def dup_header_def comp_defs numeral_eq_Suc)

subsection \<open>The frame a block allocates\<close>

text \<open>
  Claim C2, as stated, fails: the cycle that executes \<^verbatim>\<open>enter 6\<close> with \<open>sp = 3\<close> leaves
  \<open>sp = 9\<close>, not \<open>3 + (6 - 4)\<close>.
\<close>

theorem enter_adds_dx:
  "step enter_m1 = Inr enter_m2 \<and> addr (code enter_m1 ! nat (sint (pc enter_m1))) = 6 \<and>
   sp enter_m1 = 3 \<and> sp enter_m2 = 9 \<and> sp enter_m2 \<noteq> sp enter_m1 + (6 - 4)"
  using step_enter_m1 by (simp add: enter_m1_def enter_m2_def enter_prog_def)

text \<open>
  Claim C2, amended. A cycle that executes \<^verbatim>\<open>Enter dx\<close> increases the stack pointer by
  exactly \<open>dx\<close> and changes nothing else but \<open>pc\<close>; the four words of the frame header are
  not deducted. The \<open>dx\<close> the compiler places in the instruction at the entry of a block is
  the size of the frame with the locals: 4 plus the number of variables the variable
  section of the block enters into the symbol table, whose offsets are 4, 5, ...; the jump
  at the head of the block leads to that instruction.
\<close>

theorem enter_allocates:
  "(fetch_ok m \<longrightarrow> op (code m ! nat (sint (pc m))) = op_enter \<longrightarrow>
      (\<exists>m'. step m = Inr m' \<and> sp m' = sp m + addr (code m ! nat (sint (pc m))) \<and>
         bp m' = bp m \<and> pc m' = pc m + 1 \<and> stack m' = stack m)) \<and>
   (8 * length (ts st) + 7 \<le> Suc n \<longrightarrow>
      (\<exists>st2 r new entry st'.
         constSection n lev (snd (emit cop_jump 0 0 st)) = Some st2 \<and>
         varSection n Frame_size lev st2 = Some r \<and>
         symtbl (snd r) = symtbl st2 @ new \<and> fst r = 4 + of_nat (length new) \<and>
         consecutive 4 lev (map (\<lambda>e. snd (snd e)) new) \<and>
         block (Suc n) val lev nargs st = Some st' \<and>
         length (emitted st) < entry \<and> entry < length (emitted st') \<and>
         emitted st' ! entry = \<lparr>addr = fst r, op = cop_enter, level = 0\<rparr> \<and>
         emitted st' ! length (emitted st) = \<lparr>addr = of_nat entry, op = cop_jump, level = 0\<rparr>))"
proof (intro conjI impI)
  assume "fetch_ok m" and "op (code m ! nat (sint (pc m))) = op_enter"
  from step_enter [OF this(1) refl this(2)]
  show "\<exists>m'. step m = Inr m' \<and> sp m' = sp m + addr (code m ! nat (sint (pc m))) \<and>
         bp m' = bp m \<and> pc m' = pc m + 1 \<and> stack m' = stack m"
    by simp
next
  assume "8 * length (ts st) + 7 \<le> Suc n"
  from block_enter [OF this]
  show "\<exists>st2 r new entry st'.
         constSection n lev (snd (emit cop_jump 0 0 st)) = Some st2 \<and>
         varSection n Frame_size lev st2 = Some r \<and>
         symtbl (snd r) = symtbl st2 @ new \<and> fst r = 4 + of_nat (length new) \<and>
         consecutive 4 lev (map (\<lambda>e. snd (snd e)) new) \<and>
         block (Suc n) val lev nargs st = Some st' \<and>
         length (emitted st) < entry \<and> entry < length (emitted st') \<and>
         emitted st' ! entry = \<lparr>addr = fst r, op = cop_enter, level = 0\<rparr> \<and>
         emitted st' ! length (emitted st) = \<lparr>addr = of_nat entry, op = cop_jump, level = 0\<rparr>" .
qed

lemma block_src_vars:
  "map_option emitted (block (Suc 54) (0, sym_proc) 1 0 (body_state src_vars)) =
     Some (emitted (body_state []) @
       [\<lparr>addr = 3, op = cop_jump, level = 0\<rparr>, \<lparr>addr = 6, op = cop_enter, level = 0\<rparr>,
        \<lparr>addr = 0, op = cop_ret, level = 0\<rparr>])"
  by (simp add: src_vars_def body_state_def comp_defs numeral_eq_Suc)

theorem enter_allocates_witness:
  "fetch_ok enter_m1 \<and> op (code enter_m1 ! nat (sint (pc enter_m1))) = op_enter \<and>
   step enter_m1 = Inr enter_m2 \<and> sp enter_m2 = sp enter_m1 + 6 \<and>
   8 * length (ts (body_state src_vars)) + 7 \<le> Suc 54 \<and>
   map_option emitted (block (Suc 54) (0, sym_proc) 1 0 (body_state src_vars)) =
     Some (emitted (body_state []) @
       [\<lparr>addr = 3, op = cop_jump, level = 0\<rparr>, \<lparr>addr = 6, op = cop_enter, level = 0\<rparr>,
        \<lparr>addr = 0, op = cop_ret, level = 0\<rparr>]) \<and>
   (\<exists>st2 r new entry st'.
      constSection 54 1 (snd (emit cop_jump 0 0 (body_state src_vars))) = Some st2 \<and>
      varSection 54 Frame_size 1 st2 = Some r \<and>
      symtbl (snd r) = symtbl st2 @ new \<and> fst r = 4 + of_nat (length new) \<and>
      consecutive 4 1 (map (\<lambda>e. snd (snd e)) new) \<and>
      block (Suc 54) (0, sym_proc) 1 0 (body_state src_vars) = Some st' \<and>
      length (emitted (body_state src_vars)) < entry \<and> entry < length (emitted st') \<and>
      emitted st' ! entry = \<lparr>addr = fst r, op = cop_enter, level = 0\<rparr> \<and>
      emitted st' ! length (emitted (body_state src_vars)) =
        \<lparr>addr = of_nat entry, op = cop_jump, level = 0\<rparr>)"
proof -
  have f: "fetch_ok enter_m1"
    by (simp add: enter_m1_def enter_prog_def fetch_ok_def)
  have o: "op (code enter_m1 ! nat (sint (pc enter_m1))) = op_enter"
    by (simp add: enter_m1_def enter_prog_def)
  have l: "8 * length (ts (body_state src_vars)) + 7 \<le> Suc 54"
    by (simp add: src_vars_def)
  have s: "sp enter_m2 = sp enter_m1 + 6"
    by (simp add: enter_m1_def enter_m2_def)
  from enter_allocates [of enter_m1 "body_state src_vars" 54 1 "(0, sym_proc)" 0]
  show ?thesis
    using f o l s step_enter_m1 block_src_vars
    by (simp del: block.simps)
qed

end
